theory Spec2Isabelle
  imports
    Complex_Main
    "HOL-Library.Multiset"
    "HOL-Library.AList"
    "HOL-Library.Char_ord"
    "HOL-Library.List_Lexorder"
    "HOL-Library.Log_Nat"
    "HOL-Library.Product_Lexorder"
begin

unbundle bit_operations_syntax

section \<open>Values and tables\<close>

text \<open>
  A pandas float64 cell of a ratio or percentage: a finite number, an infinity or NaN.
  Finite values of these cells are carried as exact reals; the rounding of their
  divisions is not modelled. Integer columns are \<^typ>\<open>int\<close>. A float64 column made from
  an integer column (by \<open>shift\<close>, or by arithmetic with such a column) holds integers and
  NaN only: it is \<^typ>\<open>int option\<close> with \<open>None\<close> for NaN, and every value that enters it
  is rounded by \<open>f64\<close>.
\<close>

text \<open>\<open>f64 n\<close> is the float64 nearest to the integer \<open>n\<close>, ties to the even mantissa:
  integers of more than 53 bits lose their low bits. The result is an integer again, so
  the sum or difference of two such values, rounded, is \<open>f64\<close> of the exact one.\<close>

definition f64 :: "int \<Rightarrow> int" where
  "f64 n =
     (let a = \<bar>n\<bar>; e = nat (bitlen a - 53)
      in if e = 0 then n
         else
           (let q = a div 2 ^ e; r = a mod 2 ^ e; h = 2 ^ (e - 1);
                q' = (if h < r \<or> (r = h \<and> odd q) then q + 1 else q)
            in sgn n * (q' * 2 ^ e)))"

text \<open>The integers float64 holds exactly, whatever their low bits.\<close>

definition f64_exact :: "int \<Rightarrow> bool" where
  "f64_exact n = (\<bar>n\<bar> \<le> 2 ^ 53)"

datatype pyfloat = Fin real | PInf | NInf | NaN

text \<open>Series division \<open>a / b\<close> of integer-valued columns: no exception on a zero
  divisor, the cell becomes NaN (\<open>0 / 0\<close>) or a signed infinity.\<close>

definition truediv :: "int \<Rightarrow> int \<Rightarrow> pyfloat" where
  "truediv a b =
     (if b \<noteq> 0 then Fin (real_of_int a / real_of_int b)
      else if a = 0 then NaN
      else if 0 < a then PInf else NInf)"

definition is_finite :: "pyfloat \<Rightarrow> bool" where
  "is_finite x = (case x of Fin _ \<Rightarrow> True | _ \<Rightarrow> False)"

text \<open>\<open>round(x, 2)\<close> of a float cell: \<open>rint(x * 100) / 100\<close> with ties to even; NaN and
  the infinities stay as they are.\<close>

definition rint :: "real \<Rightarrow> int" where
  "rint x =
     (let f = \<lfloor>x\<rfloor>; d = x - of_int f
      in if d < 1 / 2 then f else if 1 / 2 < d then f + 1 else if even f then f else f + 1)"

definition round2 :: "pyfloat \<Rightarrow> pyfloat" where
  "round2 x = (case x of Fin r \<Rightarrow> Fin (of_int (rint (r * 100)) / 100) | _ \<Rightarrow> x)"

text \<open>The exceptions the modelled functions raise.\<close>

datatype error = KeyError string | IndexError | ValueError string | AssertionError

text \<open>\<open>Series.unique()\<close>: the distinct values in order of first appearance.\<close>

definition unique :: "'a list \<Rightarrow> 'a list" where
  "unique xs = rev (remdups (rev xs))"

text \<open>One row of a rank's trace table, with the columns the analyses read. Names and
  categories are symbol ids.\<close>

record event =
  index :: int
  ts :: int
  dur :: int
  cat :: int
  name :: int
  stream :: int
  pid :: int
  tid :: int
  index_correlation :: int

section \<open>Idle time per stream\<close>

datatype IdleTimeType = HOST_WAIT | KERNEL_WAIT | OTHER

text \<open>A GPU kernel row after the join with its launching runtime event: \<open>ts_runtime\<close>
  is NaN (\<open>None\<close>) when no runtime event correlates.\<close>

record kernel = event +
  ts_runtime :: "int option"

text \<open>
  What \<open>_analyze_idle_time_for_stream\<close> leaves to pandas, whose code is not in the
  sources: \<open>sort_values(by="ts")\<close> (the default sort is not stable, so the order of rows
  with equal \<open>ts\<close> is its own), the float64 sum of a group's cells and the float64 sum of
  a column. They are parameters of the model.
\<close>

record pandas_ops =
  sort_by_ts :: "kernel list \<Rightarrow> kernel list"
  group_sum :: "int list \<Rightarrow> int"
  series_sum :: "int list \<Rightarrow> int"

text \<open>The columns \<open>_analyze_idle_time_for_stream\<close> adds to the stream's sorted kernels.
  \<open>end_ts\<close> is an integer column; \<open>prev_end_ts = end_ts.shift(1)\<close> is float64 with NaN in the
  first row, and so is \<open>idle_interval = ts - prev_end_ts\<close>, for which \<open>ts\<close> is converted to
  float64.\<close>

definition shift_prev_end :: "kernel list \<Rightarrow> int option list" where
  "shift_prev_end ks =
     (case ks of [] \<Rightarrow> [] | _ \<Rightarrow> None # map (\<lambda>k. Some (f64 (ts k + dur k))) (butlast ks))"

definition idle_interval_of :: "kernel \<Rightarrow> int option \<Rightarrow> int option" where
  "idle_interval_of k prev_end_ts = map_option (\<lambda>p. f64 (f64 (ts k) - p)) prev_end_ts"

text \<open>Comparisons with NaN are False; an integer compared with a float64 is converted to
  float64.\<close>

definition is_host_wait :: "kernel \<Rightarrow> int option \<Rightarrow> bool" where
  "is_host_wait k prev_end_ts =
     (case (ts_runtime k, prev_end_ts) of (Some r, Some p) \<Rightarrow> p < f64 r | _ \<Rightarrow> False)"

definition is_kernel_kernel_delay :: "int \<Rightarrow> kernel \<Rightarrow> int option \<Rightarrow> bool" where
  "is_kernel_kernel_delay consecutive_kernel_delay k prev_end_ts =
     (\<not> is_host_wait k prev_end_ts \<and>
      (case idle_interval_of k prev_end_ts of
         Some g \<Rightarrow> g < f64 consecutive_kernel_delay
       | None \<Rightarrow> False))"

definition idle_category_of :: "int \<Rightarrow> kernel \<Rightarrow> int option \<Rightarrow> IdleTimeType" where
  "idle_category_of consecutive_kernel_delay k prev_end_ts =
     (if is_kernel_kernel_delay consecutive_kernel_delay k prev_end_ts then KERNEL_WAIT
      else if is_host_wait k prev_end_ts then HOST_WAIT
      else OTHER)"

text \<open>\<open>gpu_kernels_s\<close>, the stream's kernels as \<open>sort_values\<close> returns them, and its rows
  as (idle_category, idle_interval).\<close>

definition stream_kernels :: "pandas_ops \<Rightarrow> int \<Rightarrow> kernel list \<Rightarrow> kernel list" where
  "stream_kernels pd s gpu_kernels = sort_by_ts pd (filter (\<lambda>k. stream k = s) gpu_kernels)"

definition idle_rows :: "pandas_ops \<Rightarrow> int \<Rightarrow> kernel list \<Rightarrow> int \<Rightarrow> (IdleTimeType \<times> int option) list" where
  "idle_rows pd s gpu_kernels consecutive_kernel_delay =
     (let gpu_kernels_s = stream_kernels pd s gpu_kernels
      in map (\<lambda>(k, p). (idle_category_of consecutive_kernel_delay k p, idle_interval_of k p))
           (zip gpu_kernels_s (shift_prev_end gpu_kernels_s)))"

text \<open>\<open>groupby("idle_category").idle_interval.sum()\<close>: one row per category that occurs,
  the float64 sum of the cells that are not NaN, 0 for a group whose cells are all NaN.
  The rows come in the order of the enum's values; \<open>IdleTimeType\<close> is not in the sources
  and the order host wait, kernel wait, other is taken for it.\<close>

definition not_nan :: "int option list \<Rightarrow> int list" where
  "not_nan cells = concat (map (\<lambda>x. case x of Some v \<Rightarrow> [v] | None \<Rightarrow> []) cells)"

definition nansum :: "pandas_ops \<Rightarrow> int option list \<Rightarrow> int" where
  "nansum pd cells = (if not_nan cells = [] then 0 else group_sum pd (not_nan cells))"

definition groupby_idle_sum :: "pandas_ops \<Rightarrow> (IdleTimeType \<times> int option) list \<Rightarrow> (IdleTimeType \<times> int) list" where
  "groupby_idle_sum pd rows =
     map (\<lambda>c. (c, nansum pd (map snd (filter (\<lambda>r. fst r = c) rows))))
       (filter (\<lambda>c. c \<in> fst ` set rows) [HOST_WAIT, KERNEL_WAIT, OTHER])"

text \<open>\<open>result.idle_interval.sum()\<close>: 0 for an empty column.\<close>

definition column_total :: "pandas_ops \<Rightarrow> int list \<Rightarrow> int" where
  "column_total pd col = (if col = [] then 0 else series_sum pd col)"

record idle_row =
  idle_category :: IdleTimeType
  idle_time :: int
  idle_stream :: int
  idle_time_ratio :: pyfloat

definition analyze_idle_time_for_stream :: "pandas_ops \<Rightarrow> int \<Rightarrow> kernel list \<Rightarrow> int \<Rightarrow> idle_row list" where
  "analyze_idle_time_for_stream pd s gpu_kernels consecutive_kernel_delay =
     (let result = groupby_idle_sum pd (idle_rows pd s gpu_kernels consecutive_kernel_delay);
          total_idle_time = column_total pd (map snd result)
      in map (\<lambda>(c, t). \<lparr>idle_category = c, idle_time = t, idle_stream = s,
                         idle_time_ratio = truediv t total_idle_time\<rparr>) result)"

text \<open>The pairs of consecutive start-sorted kernels of a stream, as (previous, current),
  with the gap \<open>start - previous.end\<close> and the category the design assigns to the pair:
  host wait when the launch came after the previous kernel's end, else kernel wait when
  the gap is under the threshold, else other.\<close>

definition consecutive_pairs :: "'a list \<Rightarrow> ('a \<times> 'a) list" where
  "consecutive_pairs xs = zip xs (tl xs)"

definition stream_pairs :: "pandas_ops \<Rightarrow> int \<Rightarrow> kernel list \<Rightarrow> (kernel \<times> kernel) list" where
  "stream_pairs pd s gpu_kernels = consecutive_pairs (stream_kernels pd s gpu_kernels)"

definition gap :: "kernel \<times> kernel \<Rightarrow> int" where
  "gap pk = (case pk of (p, k) \<Rightarrow> ts k - (ts p + dur p))"

definition pair_category :: "int \<Rightarrow> kernel \<times> kernel \<Rightarrow> IdleTimeType" where
  "pair_category consecutive_kernel_delay pk =
     (case pk of (p, k) \<Rightarrow>
       if (case ts_runtime k of Some r \<Rightarrow> ts p + dur p < r | None \<Rightarrow> False) then HOST_WAIT
       else if gap (p, k) < consecutive_kernel_delay then KERNEL_WAIT
       else OTHER)"

text \<open>A kernel row whose start, end and launch timestamp float64 holds exactly.\<close>

definition kernel_exact :: "kernel \<Rightarrow> bool" where
  "kernel_exact k =
     (f64_exact (ts k) \<and> f64_exact (ts k + dur k) \<and>
      (case ts_runtime k of Some r \<Rightarrow> f64_exact r | None \<Rightarrow> True))"

text \<open>The aggregated idle time a result table reports for a category (0 when the
  category has no row).\<close>

definition category_total :: "IdleTimeType \<Rightarrow> idle_row list \<Rightarrow> int" where
  "category_total c result = sum_list (map idle_time (filter (\<lambda>r. idle_category r = c) result))"

text \<open>The pandas operations on tables where no two rows of a stream share \<open>ts\<close> and every
  sum is of integers that float64 adds exactly: every sort gives the order of
  \<^const>\<open>sort_key\<close> and every float64 sum is the exact sum. The examples use them.\<close>

definition small_table_ops :: pandas_ops where
  "small_table_ops = \<lparr>sort_by_ts = sort_key ts, group_sum = sum_list, series_sum = sum_list\<rparr>"

subsection \<open>\<open>get_idle_time_breakdown\<close>\<close>

text \<open>
  The function is modelled from the point where it holds the rank's table
  (\<open>trace_df = t.get_trace(rank)\<close>) and the symbol table's name-to-id dictionary.
  Plotting (\<open>visualize\<close>) and the optional descriptive-statistics frame have no effect
  on the returned breakdown and are left out. Row labels of the trace table are its
  \<open>index\<close> column. The final \<open>round(2)\<close> is taken over exact reals.
\<close>

definition kernel_cats :: "string list" where
  "kernel_cats = [''kernel'', ''Kernel'', ''gpu_memset'', ''Memset'', ''gpu_memcpy'', ''Memcpy'',
     ''mtia_ccp_events'']"

definition with_runtime :: "event \<Rightarrow> int option \<Rightarrow> kernel" where
  "with_runtime e r =
     \<lparr>index = index e, ts = ts e, dur = dur e, cat = cat e, name = name e, stream = stream e,
      pid = pid e, tid = tid e, index_correlation = index_correlation e, ts_runtime = r\<rparr>"

text \<open>The left join on \<open>index_correlation\<close>: one row per matching runtime row, one row
  with NaN when none matches.\<close>

definition join_runtime :: "event list \<Rightarrow> event \<Rightarrow> kernel list" where
  "join_runtime trace_df k =
     (case filter (\<lambda>e. index e = index_correlation k) trace_df of
        [] \<Rightarrow> [with_runtime k None]
      | ms \<Rightarrow> map (\<lambda>e. with_runtime k (Some (ts e))) ms)"

definition joined_gpu_kernels :: "(string \<rightharpoonup> int) \<Rightarrow> event list \<Rightarrow> kernel list" where
  "joined_gpu_kernels sym_id_map trace_df =
     (let kernel_cat_ids = map (\<lambda>c. case sym_id_map c of Some i \<Rightarrow> i | None \<Rightarrow> - 1000) kernel_cats;
          gpu_kernels_pre = filter (\<lambda>e. stream e \<noteq> - 1 \<and> cat e \<in> set kernel_cat_ids) trace_df
      in concat (map (join_runtime trace_df) gpu_kernels_pre))"

definition idle_category_name :: "IdleTimeType \<Rightarrow> string" where
  "idle_category_name c =
     (case c of HOST_WAIT \<Rightarrow> ''host_wait'' | KERNEL_WAIT \<Rightarrow> ''kernel_wait'' | OTHER \<Rightarrow> ''other'')"

record idle_breakdown_row =
  br_rank :: int
  br_stream :: int
  br_idle_category :: string
  br_idle_time :: pyfloat
  br_idle_time_ratio :: pyfloat

definition breakdown_row :: "int \<Rightarrow> idle_row \<Rightarrow> idle_breakdown_row" where
  "breakdown_row rank r =
     \<lparr>br_rank = rank, br_stream = idle_stream r,
      br_idle_category = idle_category_name (idle_category r),
      br_idle_time = round2 (Fin (of_int (idle_time r))),
      br_idle_time_ratio = round2 (idle_time_ratio r)\<rparr>"

definition get_idle_time_breakdown ::
  "pandas_ops \<Rightarrow> (string \<rightharpoonup> int) \<Rightarrow> event list \<Rightarrow> int \<Rightarrow> int \<Rightarrow> int list option \<Rightarrow>
     error + idle_breakdown_row list" where
  "get_idle_time_breakdown pd sym_id_map trace_df consecutive_kernel_delay rank streams =
     (let gpu_kernels = joined_gpu_kernels sym_id_map trace_df;
          streams' = (case streams of None \<Rightarrow> unique (map stream gpu_kernels)
                      | Some ss \<Rightarrow> if ss = [] then unique (map stream gpu_kernels) else ss);
          result_list = map (\<lambda>s. analyze_idle_time_for_stream pd s gpu_kernels consecutive_kernel_delay) streams'
      in if result_list = [] then Inl (ValueError ''No objects to concatenate'')
         else Inr (map (breakdown_row rank) (concat result_list)))"

text \<open>The total idle time \<open>_analyze_idle_time_for_stream\<close> divides by for a stream.\<close>

definition total_idle_time :: "pandas_ops \<Rightarrow> (string \<rightharpoonup> int) \<Rightarrow> event list \<Rightarrow> int \<Rightarrow> int \<Rightarrow> int" where
  "total_idle_time pd sym_id_map trace_df consecutive_kernel_delay s =
     column_total pd (map idle_time
       (analyze_idle_time_for_stream pd s (joined_gpu_kernels sym_id_map trace_df)
          consecutive_kernel_delay))"

text \<open>Rows for examples: a trace row with the given label, start, duration, category,
  stream and correlation label, the other columns 0.\<close>

definition trace_row :: "int \<Rightarrow> int \<Rightarrow> int \<Rightarrow> int \<Rightarrow> int \<Rightarrow> int \<Rightarrow> event" where
  "trace_row i t d c s corr =
     \<lparr>index = i, ts = t, dur = d, cat = c, name = 0, stream = s, pid = 0, tid = 0,
      index_correlation = corr\<rparr>"

section \<open>TopK aggregation: \<open>_aggr_gpu_kernel_time\<close>\<close>

text \<open>
  One row of the table \<open>groupby(...).agg(["sum", "max", "min", "mean", "std"])\<close> returns,
  after \<open>reset_index\<close>. The aggregated column holds integers (durations, or in the second
  pass the per-name sums), so \<open>sum\<close>, \<open>max\<close> and \<open>min\<close> are integers and \<open>mean\<close>, \<open>std\<close> are
  floats (exact reals here).
\<close>

record agg_row =
  row_name :: string
  row_sum :: int
  row_max :: int
  row_min :: int
  row_mean :: real
  row_std :: real

text \<open>The sample standard deviation (\<open>ddof = 1\<close>) pandas computes for \<open>"std"\<close>: NaN
  (\<open>None\<close>) for a group of one value. \<open>fillna({"std": 0})\<close> then replaces NaN by 0.\<close>

definition mean_agg :: "int list \<Rightarrow> real" where
  "mean_agg xs = real_of_int (sum_list xs) / real (length xs)"

definition std_agg :: "int list \<Rightarrow> real option" where
  "std_agg xs =
     (if length xs < 2 then None
      else Some (sqrt (sum_list (map (\<lambda>x. (real_of_int x - mean_agg xs)\<^sup>2) xs) / real (length xs - 1))))"

definition fillna0 :: "real option \<Rightarrow> real" where
  "fillna0 x = (case x of None \<Rightarrow> 0 | Some v \<Rightarrow> v)"

definition agg :: "string \<Rightarrow> int list \<Rightarrow> agg_row" where
  "agg n xs =
     \<lparr>row_name = n, row_sum = sum_list xs, row_max = Max (set xs), row_min = Min (set xs),
      row_mean = mean_agg xs, row_std = fillna0 (std_agg xs)\<rparr>"

text \<open>\<open>groupby(by=["name"])[col].agg(...)\<close> over rows (name, value): one row per distinct
  name, in sorted name order, aggregating the group's values in row order.\<close>

definition groupby_agg :: "(string \<times> int) list \<Rightarrow> agg_row list" where
  "groupby_agg rows =
     map (\<lambda>n. agg n (map snd (filter (\<lambda>r. fst r = n) rows))) (sort (remdups (map fst rows)))"

text \<open>The first pass: aggregate the durations by name and sort by \<open>sum\<close>, descending.
  \<open>sort_values\<close> is modelled as a stable sort: rows of equal sum stay in name order.
  pandas' default sort is not stable, so among rows of equal sum the code's order may be
  another one.\<close>

definition first_pass :: "(string \<times> int) list \<Rightarrow> agg_row list" where
  "first_pass gpu_kernel_time = sort_key (\<lambda>r. - row_sum r) (groupby_agg gpu_kernel_time)"

fun cumsum_from :: "int \<Rightarrow> int list \<Rightarrow> int list" where
  "cumsum_from acc [] = []"
| "cumsum_from acc (x # xs) = (acc + x) # cumsum_from (acc + x) xs"

definition cumsum :: "int list \<Rightarrow> int list" where
  "cumsum xs = cumsum_from 0 xs"

text \<open>\<open>Series.quantile(q)\<close> with linear interpolation: ValueError for \<open>q\<close> outside
  \<open>[0, 1]\<close>, NaN (\<open>None\<close>) for an empty series.\<close>

definition quantile :: "real \<Rightarrow> int list \<Rightarrow> error + real option" where
  "quantile q xs =
     (if q < 0 \<or> 1 < q then Inl (ValueError ''percentiles should all be in the interval [0, 1]'')
      else if xs = [] then Inr None
      else
        (let ys = sort xs;
             h = q * real (length ys - 1);
             i = nat \<lfloor>h\<rfloor>;
             lo = ys ! i;
             hi = ys ! (min (i + 1) (length ys - 1))
         in Inr (Some (real_of_int lo + (h - real i) * real_of_int (hi - lo)))))"

text \<open>\<open>keep_idx\<close>: membership in the allow-list, or without one the column
  \<open>gpu_kernel_time["sum"] < 0\<close>.\<close>

definition keep_idx :: "string list option \<Rightarrow> agg_row \<Rightarrow> bool" where
  "keep_idx allowlist_names r =
     (case allowlist_names of Some names \<Rightarrow> row_name r \<in> set names | None \<Rightarrow> row_sum r < 0)"

text \<open>The two \<open>.loc\<close> assignments of the collapsing branch: a row outside the allow-list
  whose cumulative sum exceeds the quantile, or whose position is at or past
  \<open>num_kernels\<close>, is renamed to \<open>"others"\<close>. Comparison with a NaN quantile is False.\<close>

definition is_renamed :: "string list option \<Rightarrow> int \<Rightarrow> real option \<Rightarrow> nat \<times> agg_row \<times> int \<Rightarrow> bool" where
  "is_renamed allowlist_names num_kernels quantiles irc =
     (case irc of (i, r, c) \<Rightarrow>
        \<not> keep_idx allowlist_names r \<and>
        ((case quantiles of Some qv \<Rightarrow> qv < real_of_int c | None \<Rightarrow> False) \<or> num_kernels \<le> int i))"

definition indexed :: "agg_row list \<Rightarrow> (nat \<times> agg_row \<times> int) list" where
  "indexed rows = zip [0..<length rows] (zip rows (cumsum (map row_sum rows)))"

definition rename_others :: "string list option \<Rightarrow> int \<Rightarrow> real option \<Rightarrow> agg_row list \<Rightarrow> agg_row list" where
  "rename_others allowlist_names num_kernels quantiles rows =
     map (\<lambda>irc. if is_renamed allowlist_names num_kernels quantiles irc
                 then (fst (snd irc))\<lparr>row_name := ''others''\<rparr> else fst (snd irc))
       (indexed rows)"

definition aggr_gpu_kernel_time ::
  "(string \<times> int) list \<Rightarrow> int \<Rightarrow> real \<Rightarrow> string list option \<Rightarrow> error + agg_row list" where
  "aggr_gpu_kernel_time gpu_kernel_time num_kernels duration_ratio allowlist_names =
     (let rows = first_pass gpu_kernel_time
      in if num_kernels < int (length rows) then
           (case quantile duration_ratio (cumsum (map row_sum rows)) of
              Inl e \<Rightarrow> Inl e
            | Inr quantiles \<Rightarrow>
                Inr (groupby_agg (map (\<lambda>r. (row_name r, row_sum r))
                      (rename_others allowlist_names num_kernels quantiles rows))))
         else Inr rows)"

text \<open>The groups the collapsing branch renames, in the order of the sorted first-pass
  table.\<close>

definition renamed_groups :: "(string \<times> int) list \<Rightarrow> int \<Rightarrow> real option \<Rightarrow> string list option \<Rightarrow> agg_row list" where
  "renamed_groups gpu_kernel_time num_kernels quantiles allowlist_names =
     map (\<lambda>irc. fst (snd irc))
       (filter (is_renamed allowlist_names num_kernels quantiles) (indexed (first_pass gpu_kernel_time)))"

text \<open>Samples for examples: kernels \<open>a\<close> (10, 10), \<open>b\<close> (3, 5) and \<open>c\<close> (1, 2).\<close>

definition example_samples :: "(string \<times> int) list" where
  "example_samples = [(''a'', 10), (''b'', 3), (''c'', 1), (''a'', 10), (''b'', 5), (''c'', 2)]"

section \<open>User annotations\<close>

text \<open>
  The warnings the annotation analyses log, one constructor per \<open>logger.warning\<close> call
  with the values its message formats. \<open>logger.info\<close> lines have no effect on any result
  and are left out.
\<close>

datatype warning = NoGpuUserAnnotations int | NoAnnotationCategory string

text \<open>A GPU kernel row with the \<open>user_annotation\<close> column (a symbol id, \<open>-1\<close> for none).\<close>

record anno_kernel = event +
  user_annotation :: int

definition with_annotation :: "event \<Rightarrow> int \<Rightarrow> anno_kernel" where
  "with_annotation e u =
     \<lparr>index = index e, ts = ts e, dur = dur e, cat = cat e, name = name e, stream = stream e,
      pid = pid e, tid = tid e, index_correlation = index_correlation e, user_annotation = u\<rparr>"

text \<open>The interval \<open>[ts, end)\<close> of a row, \<open>end = ts + dur\<close>, and \<open>IntervalIndex.overlaps\<close> for
  intervals closed on the left. \<open>IntervalIndex.from_arrays\<close> raises ValueError when a left
  end is greater than its right end.\<close>

definition interval :: "'a event_scheme \<Rightarrow> int \<times> int" where
  "interval e = (ts e, ts e + dur e)"

definition overlaps :: "int \<times> int \<Rightarrow> int \<times> int \<Rightarrow> bool" where
  "overlaps a b = (fst a < snd b \<and> fst b < snd a)"

definition from_arrays :: "'a event_scheme list \<Rightarrow> error + 'a event_scheme list" where
  "from_arrays df =
     (if list_ex (\<lambda>e. ts e + dur e < ts e) df
      then Inl (ValueError ''left side of interval must be <= right side'')
      else Inr df)"

text \<open>\<open>_get_gpu_user_anno_interval_dataframe\<close>: None when the symbol is absent (or mapped
  to \<open>-1\<close>); else the annotations sorted by duration, descending (a stable sort).\<close>

definition get_gpu_user_anno_interval_dataframe ::
  "(string \<rightharpoonup> int) \<Rightarrow> event list \<Rightarrow> error + event list option" where
  "get_gpu_user_anno_interval_dataframe sym_id_map trace_df =
     (let gpu_user_anno_id = (case sym_id_map ''gpu_user_annotation'' of Some i \<Rightarrow> i | None \<Rightarrow> - 1)
      in if gpu_user_anno_id = - 1 then Inr None
         else (case from_arrays (sort_key (\<lambda>e. - dur e) (filter (\<lambda>e. cat e = gpu_user_anno_id) trace_df)) of
                 Inl e \<Rightarrow> Inl e
               | Inr gpu_user_anno_df \<Rightarrow> Inr (Some gpu_user_anno_df)))"

text \<open>\<open>_get_gpu_kernel_interval_dataframe\<close>; \<open>GPUKernelFilter\<close> is not in the sources and
  is the parameter \<open>is_gpu_kernel\<close>. Every row of the trace table carries
  \<open>user_annotation = -1\<close> at this point.\<close>

definition get_gpu_kernel_interval_dataframe ::
  "(event \<Rightarrow> bool) \<Rightarrow> event list \<Rightarrow> error + anno_kernel list" where
  "get_gpu_kernel_interval_dataframe is_gpu_kernel trace_df =
     from_arrays (map (\<lambda>e. with_annotation e (- 1)) (filter is_gpu_kernel trace_df))"

text \<open>One \<open>.loc\<close> assignment of the inner loop: every kernel of the annotation's pid and tid
  whose interval overlaps the annotation's gets the annotation's name.\<close>

definition matches :: "'a event_scheme \<Rightarrow> 'b event_scheme \<Rightarrow> bool" where
  "matches k a = (pid k = pid a \<and> tid k = tid a \<and> overlaps (interval k) (interval a))"

definition assign_annotation :: "anno_kernel list \<Rightarrow> event \<Rightarrow> anno_kernel list" where
  "assign_annotation gpu_kernels_df a =
     map (\<lambda>k. if matches k a then k\<lparr>user_annotation := name a\<rparr> else k) gpu_kernels_df"

definition associate_gpu_kernels_with_user_annotations ::
  "anno_kernel list \<Rightarrow> event list \<Rightarrow> anno_kernel list" where
  "associate_gpu_kernels_with_user_annotations gpu_kernels_df gpu_user_anno_df =
     foldl (\<lambda>df p. foldl assign_annotation df (filter (\<lambda>a. (pid a, tid a) = p) gpu_user_anno_df))
       gpu_kernels_df (unique (map (\<lambda>a. (pid a, tid a)) gpu_user_anno_df))"

text \<open>The annotation a kernel holds after the annotations \<open>as\<close> were processed in order:
  the name of the last one that matches it, or its own when none does.\<close>

definition final_annotation :: "anno_kernel \<Rightarrow> event list \<Rightarrow> int" where
  "final_annotation k as =
     (if filter (matches k) as = [] then user_annotation k else name (last (filter (matches k) as)))"

text \<open>\<open>get_gpu_kernels_with_user_annotations\<close>, from the rank's table on
  (\<open>trace_df = t.get_trace(rank)\<close>), with \<open>expand_names = False\<close>: with \<open>expand_names\<close> the
  same rows are returned with their symbol ids decoded to names.\<close>

definition get_gpu_kernels_with_user_annotations ::
  "(event \<Rightarrow> bool) \<Rightarrow> (string \<rightharpoonup> int) \<Rightarrow> event list \<Rightarrow> int \<Rightarrow>
     warning list \<times> (error + anno_kernel list option)" where
  "get_gpu_kernels_with_user_annotations is_gpu_kernel sym_id_map trace_df rank =
     (case get_gpu_user_anno_interval_dataframe sym_id_map trace_df of
        Inl e \<Rightarrow> ([], Inl e)
      | Inr None \<Rightarrow> ([NoGpuUserAnnotations rank], Inr None)
      | Inr (Some gpu_user_anno_df) \<Rightarrow>
          (case get_gpu_kernel_interval_dataframe is_gpu_kernel trace_df of
             Inl e \<Rightarrow> ([], Inl e)
           | Inr gpu_kernels_df \<Rightarrow>
               ([], Inr (Some (associate_gpu_kernels_with_user_annotations gpu_kernels_df gpu_user_anno_df)))))"

subsection \<open>\<open>get_gpu_user_annotation_breakdown\<close>\<close>

text \<open>
  The symbol table and the trace are given by what the function reads of them:
  \<open>sym_index\<close> (name to id), \<open>decode\<close> (id to name, as \<open>add_symbols_to_trace_df\<close> applies it
  to the \<open>name\<close> column), \<open>find_matched_symbols\<close> (the names matching the allow-list
  patterns) and \<open>traces\<close>, the items of the rank dictionary in order.
\<close>

record rank_row = agg_row +
  row_rank :: int

definition with_rank :: "int \<Rightarrow> agg_row \<Rightarrow> rank_row" where
  "with_rank rank r =
     \<lparr>row_name = row_name r, row_sum = row_sum r, row_max = row_max r, row_min = row_min r,
      row_mean = row_mean r, row_std = row_std r, row_rank = rank\<rparr>"

fun aggr_per_rank ::
  "(int \<Rightarrow> string) \<Rightarrow> int \<Rightarrow> int \<Rightarrow> real \<Rightarrow> string list option \<Rightarrow> (int \<times> event list) list \<Rightarrow>
     error + rank_row list" where
  "aggr_per_rank decode idx num_kernels duration_ratio allowlist_names [] = Inr []"
| "aggr_per_rank decode idx num_kernels duration_ratio allowlist_names ((rank, trace_df) # traces) =
     (case aggr_gpu_kernel_time (map (\<lambda>e. (decode (name e), dur e)) (filter (\<lambda>e. cat e = idx) trace_df))
             num_kernels duration_ratio allowlist_names of
        Inl e \<Rightarrow> Inl e
      | Inr gpu_kernel_time \<Rightarrow>
          (case aggr_per_rank decode idx num_kernels duration_ratio allowlist_names traces of
             Inl e \<Rightarrow> Inl e
           | Inr all_kernel_df \<Rightarrow> Inr (map (with_rank rank) gpu_kernel_time @ all_kernel_df)))"

definition get_gpu_user_annotation_breakdown ::
  "(string \<rightharpoonup> int) \<Rightarrow> (int \<Rightarrow> string) \<Rightarrow> (string list \<Rightarrow> string list) \<Rightarrow> (int \<times> event list) list \<Rightarrow>
     bool \<Rightarrow> real \<Rightarrow> int \<Rightarrow> string list option \<Rightarrow> warning list \<times> (error + rank_row list option)" where
  "get_gpu_user_annotation_breakdown sym_index decode find_matched_symbols traces
       use_gpu_annotation duration_ratio num_kernels allowlist_patterns =
     (let annotation = (if use_gpu_annotation then ''gpu_user_annotation'' else ''user_annotation'')
      in case sym_index annotation of
           None \<Rightarrow> ([NoAnnotationCategory annotation], Inr None)
         | Some idx \<Rightarrow>
             (let allowlist_names = map_option find_matched_symbols allowlist_patterns
              in case aggr_per_rank decode idx num_kernels duration_ratio allowlist_names traces of
                   Inl e \<Rightarrow> ([], Inl e)
                 | Inr all_kernel_df \<Rightarrow>
                     ([], Inr (Some (sort_key (\<lambda>r. (row_rank r, row_name r)) all_kernel_df)))))"

text \<open>Rows for examples: a trace row of the given category, name, pid, tid, start and
  duration.\<close>

definition anno_row :: "int \<Rightarrow> int \<Rightarrow> int \<Rightarrow> int \<Rightarrow> int \<Rightarrow> int \<Rightarrow> event" where
  "anno_row c n p t s d =
     \<lparr>index = 0, ts = s, dur = d, cat = c, name = n, stream = 0, pid = p, tid = t,
      index_correlation = 0\<rparr>"

section \<open>Kernel-type overlap: \<open>_get_gpu_kernel_type_time\<close>\<close>

text \<open>
  A merged-interval table is a list of rows \<open>(ts, end)\<close>. The table the sweep works on has
  rows \<open>(status, time)\<close>: \<open>melt\<close> stacks the \<open>ts\<close> column over the \<open>end\<close> column and
  \<open>replace\<close> turns the column names into \<open>+value\<close> and \<open>-value\<close>.
\<close>

definition melt :: "int \<Rightarrow> (int \<times> int) list \<Rightarrow> (int \<times> int) list" where
  "melt v kernel_t_df = map (\<lambda>iv. (v, fst iv)) kernel_t_df @ map (\<lambda>iv. (- v, snd iv)) kernel_t_df"

text \<open>The loop over \<open>enumerate(kernel_type_to_analysis)\<close>, given each type's merged
  intervals: the flag is \<open>1 << idx\<close>, the melted rows are appended and the table is
  sorted by \<open>time\<close> again (a stable sort).\<close>

fun sweep_events :: "(int \<times> int) list \<Rightarrow> nat \<Rightarrow> (int \<times> int) list list \<Rightarrow> (int \<times> int) list" where
  "sweep_events overlap_df idx [] = overlap_df"
| "sweep_events overlap_df idx (kernel_t_df # rest) =
     sweep_events (sort_key snd (overlap_df @ melt (push_bit idx 1) kernel_t_df)) (Suc idx) rest"

text \<open>\<open>kernel_t_mapping\<close>, a dictionary in insertion order: assigning to a key that is
  present keeps its position.\<close>

fun kernel_t_mapping_from :: "(string \<times> int) list \<Rightarrow> nat \<Rightarrow> string list \<Rightarrow> (string \<times> int) list" where
  "kernel_t_mapping_from m idx [] = m"
| "kernel_t_mapping_from m idx (kernel_type # rest) =
     kernel_t_mapping_from (AList.update kernel_type (push_bit idx 1) m) (Suc idx) rest"

text \<open>The columns \<open>running\<close> (cumulative sum of \<open>status\<close>) and \<open>next_time\<close>
  (\<open>time.shift(-1)\<close>: a float64 column, NaN in the last row).\<close>

definition running_col :: "(int \<times> int) list \<Rightarrow> int list" where
  "running_col df = cumsum (map fst df)"

definition next_time_col :: "(int \<times> int) list \<Rightarrow> int option list" where
  "next_time_col df =
     (case df of [] \<Rightarrow> [] | _ # rest \<Rightarrow> map (\<lambda>r. Some (f64 (snd r))) rest @ [None])"

text \<open>\<open>running_mapping\<close>: for a positive running value, the names of the kernel types
  whose flag it has set, in dictionary order, joined by \<open>" overlapping "\<close>; no entry when
  no flag is set.\<close>

definition running_label :: "(string \<times> int) list \<Rightarrow> int \<Rightarrow> string option" where
  "running_label kernel_t_mapping u =
     (case filter (\<lambda>kv. u AND snd kv \<noteq> 0) kernel_t_mapping of
        [] \<Rightarrow> None
      | kv # rest \<Rightarrow> Some (foldl (\<lambda>s kv'. s @ '' overlapping '' @ fst kv') (fst kv) rest))"

text \<open>The \<open>kernel_type\<close> column of a row that is kept (\<open>running > 0\<close>): its label, or the
  initial empty string.\<close>

definition kernel_type_label :: "(string \<times> int) list \<Rightarrow> int \<Rightarrow> string" where
  "kernel_type_label kernel_t_mapping u =
     (case running_label kernel_t_mapping u of Some l \<Rightarrow> l | None \<Rightarrow> [])"

text \<open>\<open>groupby(by=["kernel_type"])["dur"].agg(["sum"])\<close>: one row per label, in sorted
  label order.\<close>

definition groupby_sum :: "(string \<times> int) list \<Rightarrow> (string \<times> int) list" where
  "groupby_sum rows =
     map (\<lambda>k. (k, sum_list (map snd (filter (\<lambda>r. fst r = k) rows)))) (sort (remdups (map fst rows)))"

text \<open>The rows kept by \<open>running > 0\<close>, as (time, running, next_time).\<close>

definition active_rows :: "(int \<times> int) list \<Rightarrow> (int \<times> int \<times> int option) list" where
  "active_rows df =
     filter (\<lambda>r. 0 < fst (snd r)) (zip (map snd df) (zip (running_col df) (next_time_col df)))"

text \<open>The column \<open>dur = (next_time - time).astype(int)\<close> of a kept row: \<open>time\<close> is
  converted to float64 and the difference is taken in float64.\<close>

definition dur_col :: "int \<times> int \<times> int option \<Rightarrow> int" where
  "dur_col r = (case snd (snd r) of Some n \<Rightarrow> f64 (n - f64 (fst r)) | None \<Rightarrow> 0)"

text \<open>The part of \<open>_get_gpu_kernel_type_time\<close> after the merges: \<open>merged\<close> lists each
  kernel type of \<open>kernel_type_to_analysis\<close> with its merged intervals. \<open>astype(int)\<close>
  raises when a kept row has a NaN \<open>next_time\<close>.\<close>

definition get_gpu_kernel_type_time_merged ::
  "(string \<times> (int \<times> int) list) list \<Rightarrow> error + (string \<times> int) list" where
  "get_gpu_kernel_type_time_merged merged =
     (let overlap_kernel_type_df = sweep_events [] 0 (map snd merged);
          kernel_t_mapping = kernel_t_mapping_from [] 0 (map fst merged);
          rows = active_rows overlap_kernel_type_df
      in if list_ex (\<lambda>r. snd (snd r) = None) rows
         then Inl (ValueError ''Cannot convert non-finite values (NA or inf) to integer'')
         else Inr (groupby_sum
                (map (\<lambda>r. (kernel_type_label kernel_t_mapping (fst (snd r)), dur_col r)) rows)))"

text \<open>Quantities the properties of the sweep are stated with: the total duration the
  scan adds up over exact times; the running value at an instant \<open>t\<close> (the sum of the status of all rows up to
  \<open>t\<close>); how many intervals of a category hold \<open>t\<close>; and the flag-weighted count over the
  categories.\<close>

fun sweep_total :: "int \<Rightarrow> (int \<times> int) list \<Rightarrow> int" where
  "sweep_total acc [] = 0"
| "sweep_total acc [r] = 0"
| "sweep_total acc (r # r' # rest) =
     (if 0 < acc + fst r then snd r' - snd r else 0) + sweep_total (acc + fst r) (r' # rest)"

definition level :: "(int \<times> int) list \<Rightarrow> int \<Rightarrow> int" where
  "level df t = sum_list (map fst (filter (\<lambda>r. snd r \<le> t) df))"

definition active_count :: "(int \<times> int) list \<Rightarrow> int \<Rightarrow> nat" where
  "active_count ivs t = length (filter (\<lambda>iv. fst iv \<le> t \<and> t < snd iv) ivs)"

fun weight :: "nat \<Rightarrow> (int \<times> int) list list \<Rightarrow> int \<Rightarrow> int" where
  "weight idx [] t = 0"
| "weight idx (ivs # rest) t = push_bit idx 1 * int (active_count ivs t) + weight (Suc idx) rest t"

text \<open>The same columns before any conversion to float64: the next time as an integer,
  the exact duration of a kept row, and the kept rows when the running sum starts from
  \<open>acc\<close>.\<close>

definition next_time_int :: "(int \<times> int) list \<Rightarrow> int option list" where
  "next_time_int df = (case df of [] \<Rightarrow> [] | _ # rest \<Rightarrow> map (\<lambda>r. Some (snd r)) rest @ [None])"

definition row_dur :: "int \<times> int \<times> int option \<Rightarrow> int" where
  "row_dur r = (case snd (snd r) of Some n \<Rightarrow> n - fst r | None \<Rightarrow> 0)"

definition rows_from :: "int \<Rightarrow> (int \<times> int) list \<Rightarrow> (int \<times> int \<times> int option) list" where
  "rows_from acc df =
     filter (\<lambda>r. 0 < fst (snd r)) (zip (map snd df) (zip (cumsum_from acc (map fst df)) (next_time_int df)))"

text \<open>The interval sets the claim about the sweep ranges over: a category's intervals
  are sorted by start, none ends before it starts, and none starts before the previous
  one ends.\<close>

fun premerged :: "(int \<times> int) list \<Rightarrow> bool" where
  "premerged [] = True"
| "premerged [iv] = (fst iv \<le> snd iv)"
| "premerged (iv # iv' # rest) = (fst iv \<le> snd iv \<and> snd iv \<le> fst iv' \<and> premerged (iv' # rest))"

text \<open>The time covered by a set of intervals \<open>[ts, end)\<close> with integer ends: the integer
  instants \<open>t\<close> with \<open>ts \<le> t < end\<close> for one of them. The number of these instants is the
  total length of the union of the intervals.\<close>

definition covered :: "(int \<times> int) list \<Rightarrow> int set" where
  "covered ivs = (\<Union>iv\<in>set ivs. {fst iv..<snd iv})"

subsection \<open>\<open>merge_kernel_intervals\<close>\<close>

text \<open>
  Modelled from the spec: \<open>merge_kernel_intervals\<close> (hta/utils/utils.py) is not in the
  sources. The spec (IntervalMerger): sort by start; scan, extending the current merged
  interval's end with \<open>max(end, next.end)\<close> whenever \<open>next.start <= current.end\<close>; otherwise
  close the current interval and open a new one; empty input yields empty output.
\<close>

fun merge_scan :: "int \<times> int \<Rightarrow> (int \<times> int) list \<Rightarrow> (int \<times> int) list" where
  "merge_scan cur [] = [cur]"
| "merge_scan cur (nxt # rest) =
     (if fst nxt \<le> snd cur then merge_scan (fst cur, max (snd cur) (snd nxt)) rest
      else cur # merge_scan nxt rest)"

definition merge_kernel_intervals :: "'a event_scheme list \<Rightarrow> (int \<times> int) list" where
  "merge_kernel_intervals kernel_df =
     (case sort_key fst (map interval kernel_df) of [] \<Rightarrow> [] | iv # rest \<Rightarrow> merge_scan iv rest)"

text \<open>\<open>_get_gpu_kernel_type_time\<close>: \<open>kernel_type_of\<close> gives the \<open>kernel_type\<close> column of a
  row (\<open>get_kernel_type\<close> of its name, not in the sources).\<close>

definition get_gpu_kernel_type_time ::
  "(event \<Rightarrow> string) \<Rightarrow> event list \<Rightarrow> string list \<Rightarrow> error + (string \<times> int) list" where
  "get_gpu_kernel_type_time kernel_type_of gpu_kernels kernel_type_to_analysis =
     get_gpu_kernel_type_time_merged
       (map (\<lambda>kernel_type.
              (kernel_type, merge_kernel_intervals (filter (\<lambda>k. kernel_type_of k = kernel_type) gpu_kernels)))
          kernel_type_to_analysis)"

section \<open>Temporal breakdown: \<open>get_temporal_breakdown\<close>\<close>

text \<open>\<open>end.sum() - ts.sum()\<close> over a merged-interval table.\<close>

definition merged_time :: "(int \<times> int) list \<Rightarrow> int" where
  "merged_time merged = sum_list (map snd merged) - sum_list (map fst merged)"

text \<open>\<open>_get_idle_time_for_kernels\<close>: \<open>iloc[-1]\<close> and \<open>iloc[0]\<close> raise IndexError on an empty
  table.\<close>

definition get_idle_time_for_kernels :: "'a event_scheme list \<Rightarrow> error + int \<times> int" where
  "get_idle_time_for_kernels kernels_df =
     (let merged_kernels = merge_kernel_intervals kernels_df
      in if merged_kernels = [] then Inl IndexError
         else
           (let kernel_time = snd (last merged_kernels) - fst (hd merged_kernels);
                kernel_run_time = merged_time merged_kernels
            in Inr (kernel_time - kernel_run_time, kernel_time)))"

text \<open>The tuple \<open>idle_time_per_rank\<close> returns.\<close>

record temporal =
  t_idle_time :: int
  t_compute_time :: int
  t_comm_time :: int
  t_mem_time :: int
  t_non_compute_time :: int
  t_kernel_time :: int

text \<open>\<open>idle_time_per_rank\<close> (its \<open>idle_time\<close> and \<open>kernel_time\<close> are \<open>idle_time_us\<close> and
  \<open>kernel_time_us\<close> here); \<open>kernel_type_of\<close> gives the \<open>kernel_type\<close> column of a row,
  and \<open>KernelType.X.name\<close> is the member's name. A failed \<open>assert\<close> raises
  AssertionError.\<close>

definition idle_time_per_rank :: "(event \<Rightarrow> string) \<Rightarrow> event list \<Rightarrow> error + temporal" where
  "idle_time_per_rank kernel_type_of trace_df =
     (let gpu_kernels = filter (\<lambda>e. stream e \<noteq> - 1) trace_df
      in case get_idle_time_for_kernels gpu_kernels of
           Inl e \<Rightarrow> Inl e
         | Inr (idle_time_us, kernel_time_us) \<Rightarrow>
             (let comp_kernels = merge_kernel_intervals
                    (filter (\<lambda>k. kernel_type_of k = ''COMPUTATION'') gpu_kernels);
                  comm_kernels = merge_kernel_intervals
                    (filter (\<lambda>k. kernel_type_of k = ''COMMUNICATION'') gpu_kernels);
                  mem_kernels = merge_kernel_intervals
                    (filter (\<lambda>k. kernel_type_of k = ''MEMORY'') gpu_kernels);
                  compute_time = merged_time comp_kernels;
                  comm_time = merged_time comm_kernels;
                  mem_time = merged_time mem_kernels;
                  non_compute_time = kernel_time_us - compute_time - idle_time_us
              in if \<not> idle_time_us \<le> kernel_time_us then Inl AssertionError
                 else if \<not> compute_time \<le> kernel_time_us then Inl AssertionError
                 else if \<not> 0 \<le> non_compute_time then Inl AssertionError
                 else if \<not> comm_time \<le> kernel_time_us then Inl AssertionError
                 else if \<not> mem_time \<le> kernel_time_us then Inl AssertionError
                 else Inr \<lparr>t_idle_time = idle_time_us, t_compute_time = compute_time,
                           t_comm_time = comm_time, t_mem_time = mem_time,
                           t_non_compute_time = non_compute_time, t_kernel_time = kernel_time_us\<rparr>))"

text \<open>The loop over \<open>t.traces.items()\<close>: the first rank that raises ends the call.\<close>

fun temporal_per_rank :: "(event \<Rightarrow> string) \<Rightarrow> (int \<times> event list) list \<Rightarrow> error + (int \<times> temporal) list" where
  "temporal_per_rank kernel_type_of [] = Inr []"
| "temporal_per_rank kernel_type_of ((rank, trace_df) # traces) =
     (case idle_time_per_rank kernel_type_of trace_df of
        Inl e \<Rightarrow> Inl e
      | Inr r \<Rightarrow>
          (case temporal_per_rank kernel_type_of traces of
             Inl e \<Rightarrow> Inl e
           | Inr rs \<Rightarrow> Inr ((rank, r) # rs)))"

text \<open>
  A data frame: its columns in order, each a name and the cells of its rows. Every cell of
  this frame is a number, carried as a float cell. Reading or selecting a column that is
  not there raises KeyError.
\<close>

type_synonym dataframe = "(string \<times> pyfloat list) list"

definition get_col :: "dataframe \<Rightarrow> string \<Rightarrow> error + pyfloat list" where
  "get_col df c = (case map_of df c of None \<Rightarrow> Inl (KeyError c) | Some col \<Rightarrow> Inr col)"

definition set_col :: "dataframe \<Rightarrow> string \<Rightarrow> pyfloat list \<Rightarrow> dataframe" where
  "set_col df c col = AList.update c col df"

fun select_cols :: "dataframe \<Rightarrow> string list \<Rightarrow> error + dataframe" where
  "select_cols df [] = Inr []"
| "select_cols df (c # cs) =
     (case get_col df c of
        Inl e \<Rightarrow> Inl e
      | Inr col \<Rightarrow> (case select_cols df cs of Inl e \<Rightarrow> Inl e | Inr sel \<Rightarrow> Inr ((c, col) # sel)))"

text \<open>Float division and the scaling \<open>100 * x\<close> of cells. Signed zeros are not
  modelled.\<close>

fun fdiv :: "pyfloat \<Rightarrow> pyfloat \<Rightarrow> pyfloat" where
  "fdiv (Fin a) (Fin b) =
     (if b \<noteq> 0 then Fin (a / b) else if a = 0 then NaN else if 0 < a then PInf else NInf)"
| "fdiv NaN y = NaN"
| "fdiv x NaN = NaN"
| "fdiv (Fin a) y = Fin 0"
| "fdiv PInf (Fin b) = (if 0 \<le> b then PInf else NInf)"
| "fdiv NInf (Fin b) = (if 0 \<le> b then NInf else PInf)"
| "fdiv x y = NaN"

definition scale100 :: "pyfloat \<Rightarrow> pyfloat" where
  "scale100 x = (case x of Fin r \<Rightarrow> Fin (100 * r) | _ \<Rightarrow> x)"

definition pctg_of_ratio :: "pyfloat \<Rightarrow> pyfloat" where
  "pctg_of_ratio x = round2 (scale100 x)"

text \<open>\<open>pd.DataFrame(result)\<close>: the columns in the order the dictionary got its keys; no
  column at all when there is no rank.\<close>

definition int_col :: "int list \<Rightarrow> pyfloat list" where
  "int_col xs = map (\<lambda>x. Fin (real_of_int x)) xs"

definition result_frame :: "(int \<times> temporal) list \<Rightarrow> dataframe" where
  "result_frame rs =
     (if rs = [] then []
      else [(''rank'', int_col (map fst rs)),
            (''idle_time(us)'', int_col (map (\<lambda>r. t_idle_time (snd r)) rs)),
            (''compute_time(us)'', int_col (map (\<lambda>r. t_compute_time (snd r)) rs)),
            (''non_compute_time(us)'', int_col (map (\<lambda>r. t_non_compute_time (snd r)) rs)),
            (''kernel_time(us)'', int_col (map (\<lambda>r. t_kernel_time (snd r)) rs)),
            (''comm_time(us)'', int_col (map (\<lambda>r. t_comm_time (snd r)) rs)),
            (''mem_time(us)'', int_col (map (\<lambda>r. t_mem_time (snd r)) rs))])"

text \<open>For a metric \<open>m\<close>: \<open>df[m] = df[m(us)] / df["kernel_time(us)"]\<close>, then
  \<open>df[m_pctg] = round(100 * df[m], 2)\<close>.\<close>

definition add_ratio_pctg :: "string \<Rightarrow> dataframe \<Rightarrow> error + dataframe" where
  "add_ratio_pctg m df =
     (case get_col df (m @ ''(us)'') of
        Inl e \<Rightarrow> Inl e
      | Inr a \<Rightarrow>
          (case get_col df ''kernel_time(us)'' of
             Inl e \<Rightarrow> Inl e
           | Inr b \<Rightarrow>
               (let df1 = set_col df m (map2 fdiv a b)
                in case get_col df1 m of
                     Inl e \<Rightarrow> Inl e
                   | Inr ratio \<Rightarrow> Inr (set_col df1 (m @ ''_pctg'') (map pctg_of_ratio ratio)))))"

definition bind_error :: "error + 'a \<Rightarrow> ('a \<Rightarrow> error + 'b) \<Rightarrow> error + 'b" where
  "bind_error x f = (case x of Inl e \<Rightarrow> Inl e | Inr v \<Rightarrow> f v)"

text \<open>\<open>get_temporal_breakdown\<close>, given \<open>t.traces.items()\<close>; plotting is left out.\<close>

definition get_temporal_breakdown :: "(event \<Rightarrow> string) \<Rightarrow> (int \<times> event list) list \<Rightarrow> error + dataframe" where
  "get_temporal_breakdown kernel_type_of traces =
     bind_error (temporal_per_rank kernel_type_of traces) (\<lambda>rs.
     bind_error (add_ratio_pctg ''idle_time'' (result_frame rs)) (\<lambda>df.
     bind_error (add_ratio_pctg ''compute_time'' df) (\<lambda>df.
     bind_error (add_ratio_pctg ''comm_time'' df) (\<lambda>df.
     bind_error (add_ratio_pctg ''mem_time'' df) (\<lambda>result_df.
       select_cols result_df
         [''rank'', ''idle_time(us)'', ''compute_time(us)'', ''comm_time(us)'', ''mem_time(us)'',
          ''non_compute_time(us)'', ''kernel_time(us)'', ''idle_time_pctg'', ''compute_time_pctg'',
          ''comm_time_pctg'', ''mem_time_pctg'', ''non_compute_time_pctg''])))))"

text \<open>Rows for examples: a GPU kernel on stream 7 with the given name id, start and
  duration, and a classification of name ids.\<close>

definition kernel_row :: "int \<Rightarrow> int \<Rightarrow> int \<Rightarrow> event" where
  "kernel_row n s d =
     \<lparr>index = 0, ts = s, dur = d, cat = 0, name = n, stream = 7, pid = 0, tid = 0,
      index_correlation = 0\<rparr>"

definition example_kernel_type :: "event \<Rightarrow> string" where
  "example_kernel_type e =
     (if name e = 1 then ''COMPUTATION'' else if name e = 2 then ''COMMUNICATION'' else ''MEMORY'')"

section \<open>Idle time per stream: properties\<close>

lemmas idle_defs =
  get_idle_time_breakdown_def joined_gpu_kernels_def kernel_cats_def trace_row_def
  join_runtime_def with_runtime_def unique_def analyze_idle_time_for_stream_def idle_rows_def
  stream_kernels_def small_table_ops_def column_total_def not_nan_def
  groupby_idle_sum_def shift_prev_end_def idle_category_of_def is_kernel_kernel_delay_def
  is_host_wait_def idle_interval_of_def nansum_def truediv_def breakdown_row_def round2_def
  rint_def idle_category_name_def

lemma f64_small: "\<bar>n\<bar> < 2 ^ 53 \<Longrightarrow> f64 n = n"
proof -
  assume "\<bar>n\<bar> < 2 ^ 53"
  then have "bitlen \<bar>n\<bar> \<le> 53"
    by (simp add: bitlen_le_iff_power)
  then show ?thesis by (simp add: f64_def Let_def)
qed

lemma f64_pow53:
  "f64 9007199254740992 = 9007199254740992"
  "f64 (- 9007199254740992) = - 9007199254740992"
  by code_simp+

lemma f64_exact_id: "f64_exact n \<Longrightarrow> f64 n = n"
proof -
  assume "f64_exact n"
  then have "\<bar>n\<bar> \<le> 9007199254740992" by (simp add: f64_exact_def)
  then consider "\<bar>n\<bar> < 9007199254740992" | "n = 9007199254740992" | "n = - 9007199254740992"
    by linarith
  then show ?thesis
  proof cases
    case 1
    then have "\<bar>n\<bar> < 2 ^ 53" by simp
    then show ?thesis by (rule f64_small)
  next
    case 2
    then show ?thesis by (simp only: f64_pow53)
  next
    case 3
    then show ?thesis by (simp only: f64_pow53)
  qed
qed

lemma zip_shift_aux:
  "zip ks (map f (butlast (k # ks))) = map (\<lambda>(p, k'). (k', f p)) (zip (k # ks) ks)"
  by (induction ks arbitrary: k) auto

lemma zip_shift_prev_end:
  "zip (k # ks) (shift_prev_end (k # ks)) =
     (k, None) # map (\<lambda>(p, k'). (k', Some (f64 (ts p + dur p)))) (consecutive_pairs (k # ks))"
  unfolding shift_prev_end_def consecutive_pairs_def
  by (simp add: zip_shift_aux del: butlast.simps)

lemma idle_category_first: "idle_category_of d k None = OTHER"
  by (simp add: idle_category_of_def is_kernel_kernel_delay_def is_host_wait_def idle_interval_of_def
      split: option.splits)

text \<open>Where float64 holds every value exactly, the float columns are the exact gap and
  the category of the pair.\<close>

lemma idle_interval_pair:
  assumes "kernel_exact p" and "kernel_exact k" and "f64_exact (gap (p, k))"
  shows "idle_interval_of k (Some (f64 (ts p + dur p))) = Some (gap (p, k))"
  using assms by (simp add: idle_interval_of_def kernel_exact_def gap_def f64_exact_id)

lemma idle_category_pair:
  assumes "kernel_exact p" and "kernel_exact k" and "f64_exact (gap (p, k))" and "f64_exact d"
  shows "idle_category_of d k (Some (f64 (ts p + dur p))) = pair_category d (p, k)"
proof -
  have e: "f64 (ts p + dur p) = ts p + dur p" "f64 (ts k) = ts k" "f64 d = d"
    "f64 (ts k - (ts p + dur p)) = ts k - (ts p + dur p)"
    using assms by (simp_all add: kernel_exact_def gap_def f64_exact_id)
  have r: "f64 r = r" if "ts_runtime k = Some r" for r
    using assms(2) that by (simp add: kernel_exact_def f64_exact_id)
  show ?thesis
    by (auto simp: idle_category_of_def pair_category_def is_kernel_kernel_delay_def
        is_host_wait_def idle_interval_of_def gap_def e r split: option.splits)
qed

lemma in_consecutive_pairs:
  "(p, k) \<in> set (consecutive_pairs xs) \<Longrightarrow> p \<in> set xs \<and> k \<in> set xs"
  unfolding consecutive_pairs_def
  by (metis in_set_zipE list.sel(2) list.set_sel(2))

lemma idle_rows_pairs:
  assumes "\<forall>k\<in>set (stream_kernels pd s ks). kernel_exact k"
    and "\<forall>pk\<in>set (stream_pairs pd s ks). f64_exact (gap pk)"
    and "f64_exact d"
  shows "idle_rows pd s ks d =
     (if stream_kernels pd s ks = [] then []
      else (OTHER, None) # map (\<lambda>pk. (pair_category d pk, Some (gap pk))) (stream_pairs pd s ks))"
proof (cases "stream_kernels pd s ks")
  case Nil
  then show ?thesis by (simp add: idle_rows_def shift_prev_end_def)
next
  case (Cons k rest)
  have row: "(case pk of (p, k') \<Rightarrow>
        (idle_category_of d k' (Some (f64 (ts p + dur p))),
         idle_interval_of k' (Some (f64 (ts p + dur p))))) =
      (pair_category d pk, Some (gap pk))"
    if "pk \<in> set (stream_pairs pd s ks)" for pk
  proof -
    obtain p k' where pk: "pk = (p, k')" by (cases pk)
    with that have "p \<in> set (stream_kernels pd s ks)" "k' \<in> set (stream_kernels pd s ks)"
      using in_consecutive_pairs[of p k' "stream_kernels pd s ks"] by (simp_all add: stream_pairs_def)
    with assms(1) have ex: "kernel_exact p" "kernel_exact k'" by simp_all
    from assms(2) that pk have g: "f64_exact (gap (p, k'))" by auto
    show ?thesis
      using idle_category_pair[OF ex g assms(3)] idle_interval_pair[OF ex g] by (simp add: pk)
  qed
  have "idle_rows pd s ks d =
      (OTHER, None) # map (\<lambda>pk. case pk of (p, k') \<Rightarrow>
        (idle_category_of d k' (Some (f64 (ts p + dur p))),
         idle_interval_of k' (Some (f64 (ts p + dur p))))) (stream_pairs pd s ks)"
    using Cons
    by (simp add: idle_rows_def Let_def zip_shift_prev_end stream_pairs_def idle_category_first
        idle_interval_of_def case_prod_unfold comp_def)
  also have "map (\<lambda>pk. case pk of (p, k') \<Rightarrow>
        (idle_category_of d k' (Some (f64 (ts p + dur p))),
         idle_interval_of k' (Some (f64 (ts p + dur p))))) (stream_pairs pd s ks) =
      map (\<lambda>pk. (pair_category d pk, Some (gap pk))) (stream_pairs pd s ks)"
    using row by (intro map_cong) auto
  finally show ?thesis using Cons by simp
qed

lemma not_nan_rows:
  "not_nan (map snd (filter (\<lambda>r. fst r = c) (map (\<lambda>pk. (f pk, Some (g pk))) pairs))) =
     map g (filter (\<lambda>pk. f pk = c) pairs)"
  by (induction pairs) (auto simp: not_nan_def)

lemma not_nan_None: "not_nan (None # xs) = not_nan xs"
  by (simp add: not_nan_def)

lemma category_total_groupby:
  "sum_list (map snd (filter (\<lambda>r. fst r = c) (groupby_idle_sum pd rows))) =
     nansum pd (map snd (filter (\<lambda>r. fst r = c) rows))"
proof -
  have "nansum pd (map snd (filter (\<lambda>r. fst r = c) rows)) = 0" if "c \<notin> fst ` set rows"
  proof -
    have "filter (\<lambda>r. fst r = c) rows = []" using that by (auto simp: filter_empty_conv)
    then show ?thesis by (simp add: nansum_def not_nan_def)
  qed
  then show ?thesis
    by (cases c) (auto simp: groupby_idle_sum_def)
qed

lemma category_total_analyze:
  "category_total c (analyze_idle_time_for_stream pd s ks d) =
     nansum pd (map snd (filter (\<lambda>r. fst r = c) (idle_rows pd s ks d)))"
proof -
  have "category_total c (analyze_idle_time_for_stream pd s ks d) =
      sum_list (map snd (filter (\<lambda>r. fst r = c) (groupby_idle_sum pd (idle_rows pd s ks d))))"
    unfolding category_total_def analyze_idle_time_for_stream_def Let_def
    by (induction "groupby_idle_sum pd (idle_rows pd s ks d)") (auto simp: filter_map comp_def case_prod_unfold)
  then show ?thesis by (simp add: category_total_groupby)
qed

lemma sum_list_split_sign:
  "sum_list (map g (filter P xs)) =
     sum_list (map g (filter (\<lambda>x. P x \<and> 0 < g x) xs)) + sum_list (map g (filter (\<lambda>x. P x \<and> g x < 0) xs))"
  for g :: "'b \<Rightarrow> int"
  by (induction xs) auto

lemma sum_abs_filter_le:
  "sum_list (map (\<lambda>x. \<bar>g x\<bar>) (filter P xs)) \<le> sum_list (map (\<lambda>x. \<bar>g x\<bar>) xs)"
  for g :: "'b \<Rightarrow> int"
  by (induction xs) auto

lemma abs_le_sum_abs:
  "x \<in> set xs \<Longrightarrow> \<bar>g x\<bar> \<le> sum_list (map (\<lambda>x. \<bar>g x\<bar>) xs)"
  for g :: "'b \<Rightarrow> int"
proof (induction xs)
  case Nil
  then show ?case by simp
next
  case (Cons a xs)
  have "0 \<le> sum_list (map (\<lambda>x. \<bar>g x\<bar>) xs)" by (rule sum_list_nonneg) auto
  with Cons show ?case by auto
qed

text \<open>
  C5 (as amended). For every stream whose kernel timestamps float64 holds exactly and
  whose absolute gaps add up to at most \<open>2^53\<close> (so that pandas adds them exactly), and
  every idle category, the aggregated idle time that \<open>_analyze_idle_time_for_stream\<close>
  reports is the signed sum of the gaps of all consecutive pairs of that category, in
  the order the sort returns the stream's kernels: the positive gaps plus the negative
  gaps. A pair whose gap is zero adds nothing; a pair whose gap is negative (the kernels
  overlap) is not skipped, its negative gap is added to its category's total.
\<close>

theorem idle_total_signed:
  assumes "\<forall>xs. sum_list (map abs xs) \<le> 2 ^ 53 \<longrightarrow> group_sum pd xs = sum_list xs"
    and "\<forall>k\<in>set (stream_kernels pd s gpu_kernels). kernel_exact k"
    and "f64_exact consecutive_kernel_delay"
    and "sum_list (map (\<lambda>pk. \<bar>gap pk\<bar>) (stream_pairs pd s gpu_kernels)) \<le> 2 ^ 53"
  shows "category_total c (analyze_idle_time_for_stream pd s gpu_kernels consecutive_kernel_delay) =
     sum_list (map gap (filter (\<lambda>pk. pair_category consecutive_kernel_delay pk = c \<and> 0 < gap pk)
        (stream_pairs pd s gpu_kernels)))
   + sum_list (map gap (filter (\<lambda>pk. pair_category consecutive_kernel_delay pk = c \<and> gap pk < 0)
        (stream_pairs pd s gpu_kernels)))"
proof -
  define pairs where "pairs = stream_pairs pd s gpu_kernels"
  define gs where "gs = map gap (filter (\<lambda>pk. pair_category consecutive_kernel_delay pk = c) pairs)"
  have gaps: "\<forall>pk\<in>set (stream_pairs pd s gpu_kernels). f64_exact (gap pk)"
  proof
    fix pk assume "pk \<in> set (stream_pairs pd s gpu_kernels)"
    from abs_le_sum_abs[OF this, of gap] assms(4) show "f64_exact (gap pk)"
      by (simp add: f64_exact_def)
  qed
  have "sum_list (map abs gs) \<le> sum_list (map (\<lambda>pk. \<bar>gap pk\<bar>) pairs)"
    using sum_abs_filter_le[of gap "\<lambda>pk. pair_category consecutive_kernel_delay pk = c" pairs]
    by (simp add: gs_def comp_def)
  with assms(4) have "sum_list (map abs gs) \<le> 2 ^ 53" by (simp add: pairs_def)
  with assms(1) have exact: "group_sum pd gs = sum_list gs" by blast
  define rows where "rows = idle_rows pd s gpu_kernels consecutive_kernel_delay"
  have rows: "rows =
     (if stream_kernels pd s gpu_kernels = [] then []
      else (OTHER, None) # map (\<lambda>pk. (pair_category consecutive_kernel_delay pk, Some (gap pk))) pairs)"
    unfolding rows_def pairs_def by (rule idle_rows_pairs[OF assms(2) gaps assms(3)])
  have nn: "not_nan (map snd (filter (\<lambda>r. fst r = c) rows)) = gs"
  proof (cases "stream_kernels pd s gpu_kernels = []")
    case True
    then have "pairs = []"
      by (simp add: pairs_def stream_pairs_def consecutive_pairs_def)
    with True show ?thesis
      by (simp add: rows gs_def not_nan_def)
  next
    case False
    have "not_nan (map snd (filter (\<lambda>r. fst r = c)
        ((OTHER, None) # map (\<lambda>pk. (pair_category consecutive_kernel_delay pk, Some (gap pk))) pairs))) = gs"
      by (simp add: not_nan_rows not_nan_None gs_def)
    with False show ?thesis by (simp only: rows if_False)
  qed
  have "nansum pd (map snd (filter (\<lambda>r. fst r = c) rows)) = sum_list gs"
  proof (cases "gs = []")
    case True
    then show ?thesis by (simp add: nansum_def nn)
  next
    case False
    then show ?thesis by (simp add: nansum_def nn exact)
  qed
  then have "category_total c (analyze_idle_time_for_stream pd s gpu_kernels consecutive_kernel_delay) =
      sum_list gs"
    by (simp only: category_total_analyze rows_def)
  then show ?thesis
    using sum_list_split_sign[of gap "\<lambda>pk. pair_category consecutive_kernel_delay pk = c" pairs]
    by (simp only: gs_def pairs_def)
qed

theorem idle_total_signed_witness:
  "map gap (stream_pairs small_table_ops 7
        [with_runtime (trace_row 1 0 100 1 7 (- 1)) None,
         with_runtime (trace_row 2 150 100 1 7 0) (Some 90),
         with_runtime (trace_row 3 200 10 1 7 (- 1)) None]) = [50, - 50]
   \<and> category_total OTHER (analyze_idle_time_for_stream small_table_ops 7
        [with_runtime (trace_row 1 0 100 1 7 (- 1)) None,
         with_runtime (trace_row 2 150 100 1 7 0) (Some 90),
         with_runtime (trace_row 3 200 10 1 7 (- 1)) None] 40) = 50
   \<and> category_total KERNEL_WAIT (analyze_idle_time_for_stream small_table_ops 7
        [with_runtime (trace_row 1 0 100 1 7 (- 1)) None,
         with_runtime (trace_row 2 150 100 1 7 0) (Some 90),
         with_runtime (trace_row 3 200 10 1 7 (- 1)) None] 40) = - 50"
proof -
  let ?ks = "[with_runtime (trace_row 1 0 100 1 7 (- 1)) None,
         with_runtime (trace_row 2 150 100 1 7 0) (Some 90),
         with_runtime (trace_row 3 200 10 1 7 (- 1)) None]"
  have h1: "\<forall>xs. sum_list (map abs xs) \<le> 2 ^ 53 \<longrightarrow> group_sum small_table_ops xs = sum_list xs"
    by (simp add: small_table_ops_def)
  have h2: "\<forall>k\<in>set (stream_kernels small_table_ops 7 ?ks). kernel_exact k"
    by (simp add: stream_kernels_def small_table_ops_def with_runtime_def trace_row_def
        kernel_exact_def f64_exact_def)
  have h3: "f64_exact 40" by (simp add: f64_exact_def)
  have gaps: "map gap (stream_pairs small_table_ops 7 ?ks) = [50, - 50]"
    by (simp add: stream_pairs_def stream_kernels_def small_table_ops_def consecutive_pairs_def
        with_runtime_def trace_row_def gap_def)
  have cats: "map (pair_category 40) (stream_pairs small_table_ops 7 ?ks) = [OTHER, KERNEL_WAIT]"
    by (simp add: stream_pairs_def stream_kernels_def small_table_ops_def consecutive_pairs_def
        with_runtime_def trace_row_def gap_def pair_category_def)
  have h4: "sum_list (map (\<lambda>pk. \<bar>gap pk\<bar>) (stream_pairs small_table_ops 7 ?ks)) \<le> 2 ^ 53"
  proof -
    have "map (\<lambda>pk. \<bar>gap pk\<bar>) (stream_pairs small_table_ops 7 ?ks) =
        map abs (map gap (stream_pairs small_table_ops 7 ?ks))"
      by (simp add: comp_def)
    then show ?thesis by (simp only: gaps) simp
  qed
  obtain a b where pairs: "stream_pairs small_table_ops 7 ?ks = [a, b]"
    "gap a = 50" "gap b = - 50" "pair_category 40 a = OTHER" "pair_category 40 b = KERNEL_WAIT"
    using gaps cats by (auto simp: map_eq_Cons_conv)
  have "category_total OTHER (analyze_idle_time_for_stream small_table_ops 7 ?ks 40) = 50"
    using idle_total_signed[OF h1 h2 h3 h4, of OTHER] by (simp add: pairs)
  moreover have "category_total KERNEL_WAIT (analyze_idle_time_for_stream small_table_ops 7 ?ks 40) = - 50"
    using idle_total_signed[OF h1 h2 h3 h4, of KERNEL_WAIT] by (simp add: pairs)
  ultimately show ?thesis using gaps by simp
qed

text \<open>
  C5 (as stated) fails: on stream 7 the kernels \<open>[0, 100)\<close> and \<open>[50, 150)\<close> overlap, the
  only consecutive pair has gap \<open>-50\<close>, and with threshold 40 the pair is counted as
  kernel wait with idle time \<open>-50\<close> instead of contributing nothing. The two kernels start
  at different times, so every sort returns them in this order, and float64 holds every
  value exactly.
\<close>

theorem negative_gap_counted_counterexample:
  "map gap (stream_pairs small_table_ops 7 [with_runtime (trace_row 1 0 100 1 7 (- 1)) None,
       with_runtime (trace_row 2 50 100 1 7 (- 1)) None]) = [- 50]
   \<and> analyze_idle_time_for_stream small_table_ops 7
       [with_runtime (trace_row 1 0 100 1 7 (- 1)) None,
        with_runtime (trace_row 2 50 100 1 7 (- 1)) None] 40 =
     [\<lparr>idle_category = KERNEL_WAIT, idle_time = - 50, idle_stream = 7, idle_time_ratio = Fin 1\<rparr>,
      \<lparr>idle_category = OTHER, idle_time = 0, idle_stream = 7, idle_time_ratio = Fin 0\<rparr>]
   \<and> category_total KERNEL_WAIT (analyze_idle_time_for_stream small_table_ops 7
       [with_runtime (trace_row 1 0 100 1 7 (- 1)) None,
        with_runtime (trace_row 2 50 100 1 7 (- 1)) None] 40) = - 50"
  by code_simp

lemma round2_of_int: "round2 (Fin (of_int t)) = Fin (of_int t)"
proof -
  have "rint (real_of_int t * 100) = t * 100"
    using floor_of_int[of "t * 100", where ?'a = real] by (simp add: rint_def Let_def)
  then show ?thesis by (simp add: round2_def)
qed

lemma idle_stream_analyze:
  "r \<in> set (analyze_idle_time_for_stream pd s ks d) \<Longrightarrow> idle_stream r = s"
  by (auto simp: analyze_idle_time_for_stream_def Let_def)

lemma idle_time_rows:
  "map idle_time (map (\<lambda>(c, t). \<lparr>idle_category = c, idle_time = t, idle_stream = s,
       idle_time_ratio = truediv t T\<rparr>) xs) = map snd xs"
  by (induction xs) auto

lemma idle_ratio_analyze:
  assumes "r \<in> set (analyze_idle_time_for_stream pd s ks d)"
  shows "idle_time_ratio r =
     truediv (idle_time r) (column_total pd (map idle_time (analyze_idle_time_for_stream pd s ks d)))"
proof -
  define res where "res = groupby_idle_sum pd (idle_rows pd s ks d)"
  define T where "T = column_total pd (map snd res)"
  have an: "analyze_idle_time_for_stream pd s ks d =
      map (\<lambda>(c, t). \<lparr>idle_category = c, idle_time = t, idle_stream = s,
        idle_time_ratio = truediv t T\<rparr>) res"
    by (simp add: analyze_idle_time_for_stream_def Let_def res_def T_def)
  have "map idle_time (analyze_idle_time_for_stream pd s ks d) = map snd res"
    unfolding an by (rule idle_time_rows)
  then have total: "column_total pd (map idle_time (analyze_idle_time_for_stream pd s ks d)) = T"
    by (simp add: T_def)
  from assms have "idle_time_ratio r = truediv (idle_time r) T"
    unfolding an by auto
  with total show ?thesis by simp
qed

text \<open>
  C10 (as amended). In \<open>get_idle_time_breakdown\<close>, for every returned row of a stream whose
  total summed idle interval is zero, the ratio is a division by that zero total and is
  not a finite number: NaN when the row's own idle time is zero, plus or minus infinity
  when it is positive or negative. No error is raised for it.
\<close>

theorem zero_total_ratio_not_finite:
  assumes "get_idle_time_breakdown pd sym_id_map trace_df consecutive_kernel_delay rank streams = Inr rows"
    and "r \<in> set rows"
    and "total_idle_time pd sym_id_map trace_df consecutive_kernel_delay (br_stream r) = 0"
  shows "\<not> is_finite (br_idle_time_ratio r) \<and>
    (\<exists>t. br_idle_time r = Fin (of_int t) \<and>
       br_idle_time_ratio r = (if t = 0 then NaN else if 0 < t then PInf else NInf))"
proof -
  define gk where "gk = joined_gpu_kernels sym_id_map trace_df"
  from assms(1,2) obtain s r' where r': "r' \<in> set (analyze_idle_time_for_stream pd s gk consecutive_kernel_delay)"
    and r: "r = breakdown_row rank r'"
    by (auto simp: get_idle_time_breakdown_def Let_def gk_def split: if_splits)
  have s: "br_stream r = s"
    using idle_stream_analyze[OF r'] by (simp add: r breakdown_row_def)
  have "column_total pd (map idle_time (analyze_idle_time_for_stream pd s gk consecutive_kernel_delay)) = 0"
    using assms(3) by (simp add: total_idle_time_def s gk_def)
  then have ratio: "idle_time_ratio r' = truediv (idle_time r') 0"
    using idle_ratio_analyze[OF r'] by simp
  have time: "br_idle_time r = Fin (of_int (idle_time r'))"
    by (simp add: r breakdown_row_def round2_of_int)
  have val: "br_idle_time_ratio r =
      (if idle_time r' = 0 then NaN else if 0 < idle_time r' then PInf else NInf)"
    by (simp add: r breakdown_row_def ratio truediv_def round2_def)
  then have "\<not> is_finite (br_idle_time_ratio r)"
    by (simp add: is_finite_def)
  with time val show ?thesis by blast
qed

theorem zero_total_ratio_not_finite_witness:
  "get_idle_time_breakdown small_table_ops [''kernel'' \<mapsto> 1] [trace_row 1 0 100 1 7 (- 1)] 40 0 None =
     Inr [\<lparr>br_rank = 0, br_stream = 7, br_idle_category = ''other'', br_idle_time = Fin 0,
            br_idle_time_ratio = NaN\<rparr>]
   \<and> total_idle_time small_table_ops [''kernel'' \<mapsto> 1] [trace_row 1 0 100 1 7 (- 1)] 40 7 = 0
   \<and> \<not> is_finite NaN"
proof -
  let ?row = "\<lparr>br_rank = 0, br_stream = 7, br_idle_category = ''other'', br_idle_time = Fin 0,
            br_idle_time_ratio = NaN\<rparr>"
  have run: "get_idle_time_breakdown small_table_ops [''kernel'' \<mapsto> 1] [trace_row 1 0 100 1 7 (- 1)] 40 0 None =
     Inr [?row]"
    by (simp add: idle_defs)
  have total: "total_idle_time small_table_ops [''kernel'' \<mapsto> 1] [trace_row 1 0 100 1 7 (- 1)] 40 (br_stream ?row) = 0"
    by (simp add: total_idle_time_def idle_defs)
  have "\<not> is_finite (br_idle_time_ratio ?row)"
    using zero_total_ratio_not_finite[OF run _ total] by simp
  with run total show ?thesis by simp
qed

text \<open>
  C10 (as stated) fails where the zero total comes from gaps that cancel across
  categories: on stream 7 the kernels \<open>[0, 100)\<close>, \<open>[150, 250)\<close> (launched at 120) and
  \<open>[200, 210)\<close> give a host-wait gap of 50 and a kernel-wait gap of \<open>-50\<close>; the total is 0
  and the ratios are plus and minus infinity, not NaN.
\<close>

theorem zero_total_ratio_infinite_counterexample:
  "get_idle_time_breakdown small_table_ops [''kernel'' \<mapsto> 1]
     [trace_row 0 120 5 9 (- 1) (- 1), trace_row 1 0 100 1 7 (- 1), trace_row 2 150 100 1 7 0,
      trace_row 3 200 10 1 7 (- 1)] 40 0 None =
   Inr [\<lparr>br_rank = 0, br_stream = 7, br_idle_category = ''host_wait'', br_idle_time = Fin 50,
          br_idle_time_ratio = PInf\<rparr>,
        \<lparr>br_rank = 0, br_stream = 7, br_idle_category = ''kernel_wait'', br_idle_time = Fin (- 50),
          br_idle_time_ratio = NInf\<rparr>,
        \<lparr>br_rank = 0, br_stream = 7, br_idle_category = ''other'', br_idle_time = Fin 0,
          br_idle_time_ratio = NaN\<rparr>]
   \<and> total_idle_time small_table_ops [''kernel'' \<mapsto> 1]
     [trace_row 0 120 5 9 (- 1) (- 1), trace_row 1 0 100 1 7 (- 1), trace_row 2 150 100 1 7 0,
      trace_row 3 200 10 1 7 (- 1)] 40 7 = 0
   \<and> PInf \<noteq> NaN"
  by code_simp

section \<open>TopK aggregation: properties\<close>

lemmas topk_defs =
  aggr_gpu_kernel_time_def first_pass_def groupby_agg_def agg_def mean_agg_def std_agg_def
  fillna0_def cumsum_def quantile_def rename_others_def indexed_def is_renamed_def keep_idx_def
  renamed_groups_def example_samples_def power2_eq_square

lemma row_name_agg: "row_name (agg n xs) = n"
  by (simp add: agg_def)

lemma names_groupby_agg: "map row_name (groupby_agg ps) = sort (remdups (map fst ps))"
  by (simp add: groupby_agg_def comp_def row_name_agg)

lemma distinct_names_groupby_agg: "distinct (map row_name (groupby_agg ps))"
  by (simp add: names_groupby_agg)

lemma set_names_groupby_agg: "set (map row_name (groupby_agg ps)) = fst ` set ps"
  by (simp add: names_groupby_agg)

lemma length_groupby_agg: "length (groupby_agg ps) = card (fst ` set ps)"
proof -
  have "length (groupby_agg ps) = length (remdups (map fst ps))"
    by (simp add: groupby_agg_def)
  also have "\<dots> = card (set (map fst ps))"
    by (simp only: length_remdups_card_conv)
  finally show ?thesis by simp
qed

lemma in_groupby_agg:
  assumes "r \<in> set (groupby_agg ps)"
  shows "r = agg (row_name r) (map snd (filter (\<lambda>p. fst p = row_name r) ps))"
    and "row_name r \<in> fst ` set ps"
  using assms by (force simp: groupby_agg_def row_name_agg)+

lemma filter_name_groupby_agg:
  "filter (\<lambda>r. row_name r = n) (groupby_agg ps) =
     (if n \<in> fst ` set ps then [agg n (map snd (filter (\<lambda>p. fst p = n) ps))] else [])"
proof -
  have gen: "distinct ns \<Longrightarrow> filter (\<lambda>r. row_name r = n) (map (\<lambda>m. agg m (v m)) ns) =
      (if n \<in> set ns then [agg n (v n)] else [])" for ns v
    by (induction ns) (auto simp: row_name_agg)
  show ?thesis
    unfolding groupby_agg_def using gen[of "sort (remdups (map fst ps))"] by simp
qed

lemma mset_first_pass: "mset (first_pass s) = mset (groupby_agg s)"
  by (simp add: first_pass_def)

lemma set_first_pass: "set (first_pass s) = set (groupby_agg s)"
  using mset_first_pass by (metis set_mset_mset)

lemma length_first_pass: "length (first_pass s) = card (fst ` set s)"
  using mset_first_pass[of s] length_groupby_agg[of s] by (metis size_mset)

lemma distinct_names_first_pass: "distinct (map row_name (first_pass s))"
proof -
  have "mset (map row_name (first_pass s)) = mset (map row_name (groupby_agg s))"
    by (simp add: mset_first_pass)
  then show ?thesis
    using distinct_names_groupby_agg[of s] by (metis mset_eq_imp_distinct_iff)
qed

lemma set_names_first_pass: "set (map row_name (first_pass s)) = fst ` set s"
  using set_names_groupby_agg[of s] by (simp add: set_first_pass)

lemma in_first_pass:
  assumes "r \<in> set (first_pass s)"
  shows "row_sum r = sum_list (map snd (filter (\<lambda>p. fst p = row_name r) s))"
proof -
  from assms have "r \<in> set (groupby_agg s)" by (simp add: set_first_pass)
  from in_groupby_agg(1)[OF this] have "row_sum r = row_sum (agg (row_name r) (map snd (filter (\<lambda>p. fst p = row_name r) s)))"
    by simp
  then show ?thesis by (simp add: agg_def)
qed

lemma length_cumsum_from: "length (cumsum_from a xs) = length xs"
  by (induction xs arbitrary: a) auto

lemma rows_indexed: "map (\<lambda>irc. fst (snd irc)) (indexed rows) = rows"
proof -
  have "map (fst \<circ> snd) (zip [0..<length rows] (zip rows (cumsum (map row_sum rows)))) =
      map fst (map snd (zip [0..<length rows] (zip rows (cumsum (map row_sum rows)))))"
    by simp
  also have "\<dots> = map fst (zip rows (cumsum (map row_sum rows)))"
    by (simp add: cumsum_def length_cumsum_from del: map_map)
  also have "\<dots> = rows"
    by (simp add: cumsum_def length_cumsum_from)
  finally show ?thesis by (simp add: indexed_def comp_def)
qed

lemma filter_distinct_key:
  "distinct (map g xs) \<Longrightarrow> length (filter (\<lambda>x. P x \<and> g x = n) xs) \<le> 1"
proof (induction xs)
  case Nil
  then show ?case by simp
next
  case (Cons x xs)
  have "filter (\<lambda>y. P y \<and> g y = n) xs = []" if "g x = n"
  proof -
    from Cons.prems that have "n \<notin> g ` set xs" by auto
    then have "\<forall>y\<in>set xs. g y \<noteq> n" by blast
    then show ?thesis by (simp add: filter_empty_conv)
  qed
  with Cons show ?case by auto
qed


text \<open>The (name, sum) rows the second aggregation pass reads.\<close>

lemma renamed_pairs:
  "map (\<lambda>r. (row_name r, row_sum r)) (rename_others al k qv rows) =
     map (\<lambda>irc. (if is_renamed al k qv irc then ''others'' else row_name (fst (snd irc)),
                  row_sum (fst (snd irc)))) (indexed rows)"
  by (simp add: rename_others_def comp_def if_distrib[of row_name] if_distrib[of row_sum] cong: if_cong)

lemma aggr_collapse:
  assumes "k < int (length (first_pass s))"
    and "aggr_gpu_kernel_time s k q al = Inr out"
  obtains qv where "quantile q (cumsum (map row_sum (first_pass s))) = Inr qv"
    and "out = groupby_agg (map (\<lambda>irc. (if is_renamed al k qv irc then ''others'' else row_name (fst (snd irc)),
                  row_sum (fst (snd irc)))) (indexed (first_pass s)))"
  using assms by (auto simp: aggr_gpu_kernel_time_def Let_def renamed_pairs split: sum.splits)

lemma aggr_no_collapse:
  assumes "int (card (fst ` set s)) \<le> k"
  shows "aggr_gpu_kernel_time s k q al = Inr (first_pass s)"
  using assms by (simp add: aggr_gpu_kernel_time_def Let_def length_first_pass)

lemma kept_values:
  assumes "n \<noteq> ''others''"
  shows "map snd (filter (\<lambda>p. fst p = n)
      (map (\<lambda>irc. (if R irc then ''others'' else row_name (fst (snd irc)), row_sum (fst (snd irc)))) xs)) =
    map (\<lambda>irc. row_sum (fst (snd irc))) (filter (\<lambda>irc. \<not> R irc \<and> row_name (fst (snd irc)) = n) xs)"
  using assms by (induction xs) auto

lemma others_values:
  assumes "\<forall>irc\<in>set xs. row_name (fst (snd irc)) \<noteq> ''others''"
  shows "map snd (filter (\<lambda>p. fst p = ''others'')
      (map (\<lambda>irc. (if R irc then ''others'' else row_name (fst (snd irc)), row_sum (fst (snd irc)))) xs)) =
    map (\<lambda>irc. row_sum (fst (snd irc))) (filter R xs)"
  using assms by (induction xs) auto

lemma agg_single:
  "agg n [v] = \<lparr>row_name = n, row_sum = v, row_max = v, row_min = v, row_mean = real_of_int v, row_std = 0\<rparr>"
  by (simp add: agg_def mean_agg_def std_agg_def fillna0_def)

text \<open>
  C9. Whenever collapsing occurs (the number of distinct names exceeds \<open>num_kernels\<close>), the
  second aggregation pass aggregates only the per-name \<open>sum\<close> column, so every returned
  row of a kept name (a row not named \<open>"others"\<close>) reports max, min and mean equal to its
  sum and stddev 0; its sum is still the sum of that name's durations.
\<close>

theorem kept_rows_lose_statistics:
  assumes "num_kernels < int (card (fst ` set gpu_kernel_time))"
    and "aggr_gpu_kernel_time gpu_kernel_time num_kernels duration_ratio allowlist_names = Inr out"
    and "r \<in> set out"
    and "row_name r \<noteq> ''others''"
  shows "row_max r = row_sum r \<and> row_min r = row_sum r \<and> row_mean r = real_of_int (row_sum r)
    \<and> row_std r = 0
    \<and> row_sum r = sum_list (map snd (filter (\<lambda>p. fst p = row_name r) gpu_kernel_time))"
proof -
  define rows where "rows = first_pass gpu_kernel_time"
  define n where "n = row_name r"
  from assms(1) have "num_kernels < int (length (first_pass gpu_kernel_time))"
    by (simp add: length_first_pass)
  from aggr_collapse[OF this assms(2)] obtain qv where
    out: "out = groupby_agg (map (\<lambda>irc. (if is_renamed allowlist_names num_kernels qv irc then ''others''
        else row_name (fst (snd irc)), row_sum (fst (snd irc)))) (indexed rows))"
    unfolding rows_def by blast
  define R where "R = is_renamed allowlist_names num_kernels qv"
  define ps where "ps = map (\<lambda>irc. (if R irc then ''others'' else row_name (fst (snd irc)),
      row_sum (fst (snd irc)))) (indexed rows)"
  define kept where "kept = filter (\<lambda>irc. \<not> R irc \<and> row_name (fst (snd irc)) = n) (indexed rows)"
  have r_in: "r \<in> set (groupby_agg ps)"
    using assms(3) by (simp add: out ps_def R_def)
  have r_eq: "r = agg n (map snd (filter (\<lambda>p. fst p = n) ps))"
    and n_in: "n \<in> fst ` set ps"
    using in_groupby_agg[OF r_in] by (simp_all add: n_def)
  have vals: "map snd (filter (\<lambda>p. fst p = n) ps) = map (\<lambda>irc. row_sum (fst (snd irc))) kept"
    unfolding ps_def kept_def using assms(4) by (intro kept_values) (simp add: n_def)
  have "distinct (map (\<lambda>irc. row_name (fst (snd irc))) (indexed rows))"
    using distinct_names_first_pass[of gpu_kernel_time] rows_indexed[of rows]
    by (metis (no_types, lifting) map_map comp_def rows_def map_eq_conv)
  then have le1: "length kept \<le> 1"
    unfolding kept_def by (rule filter_distinct_key)
  from n_in obtain p where "p \<in> set ps" "fst p = n" by auto
  then have "filter (\<lambda>p. fst p = n) ps \<noteq> []"
    by (auto simp: filter_empty_conv)
  then have "kept \<noteq> []" using vals by auto
  with le1 obtain x where kept1: "kept = [x]"
    by (cases kept) auto
  then have x: "x \<in> set (indexed rows)" "row_name (fst (snd x)) = n"
    using kept_def by (metis (mono_tags, lifting) list.set_intros(1) mem_Collect_eq set_filter)+
  define r0 where "r0 = fst (snd x)"
  have "r0 \<in> set (map (\<lambda>irc. fst (snd irc)) (indexed rows))"
    using x(1) by (auto simp: r0_def)
  then have r0_in: "r0 \<in> set (first_pass gpu_kernel_time)"
    by (simp only: rows_indexed rows_def)
  have r_val: "r = agg n [row_sum r0]"
    using r_eq vals kept1 by (simp add: r0_def)
  have s0: "row_sum r0 = sum_list (map snd (filter (\<lambda>p. fst p = row_name r) gpu_kernel_time))"
    using in_first_pass[OF r0_in] x(2) by (simp add: r0_def n_def)
  have "row_sum r = row_sum r0" "row_max r = row_sum r0" "row_min r = row_sum r0"
    "row_mean r = real_of_int (row_sum r0)" "row_std r = 0"
    by (subst r_val, simp add: agg_single)+
  with s0 show ?thesis by simp
qed

text \<open>
  C4 (as amended). The quantile rule is applied only inside the branch taken when the
  number of distinct names exceeds \<open>num_kernels\<close>: for every input whose number of distinct
  names does not exceed \<open>num_kernels\<close>, whatever \<open>duration_ratio\<close> and allow-list, the
  result is the first-pass table, one row per distinct name under its own name; nothing is
  renamed or collapsed.
\<close>

theorem quantile_rule_gated_by_cap:
  assumes "int (card (fst ` set gpu_kernel_time)) \<le> num_kernels"
  shows "aggr_gpu_kernel_time gpu_kernel_time num_kernels duration_ratio allowlist_names =
      Inr (first_pass gpu_kernel_time)
    \<and> distinct (map row_name (first_pass gpu_kernel_time))
    \<and> set (map row_name (first_pass gpu_kernel_time)) = fst ` set gpu_kernel_time"
  using aggr_no_collapse[OF assms] distinct_names_first_pass set_names_first_pass by blast

text \<open>
  C4 (as stated) fails: there is no input with at most \<open>num_kernels\<close> distinct names on
  which any \<open>duration_ratio\<close> changes the first-pass table.
\<close>

theorem quantile_rule_alone_counterexample:
  "\<not> (\<exists>gpu_kernel_time num_kernels duration_ratio allowlist_names.
        int (card (fst ` set gpu_kernel_time)) \<le> num_kernels \<and>
        aggr_gpu_kernel_time gpu_kernel_time num_kernels duration_ratio allowlist_names \<noteq>
          Inr (first_pass gpu_kernel_time))"
  using aggr_no_collapse by blast

text \<open>
  C3 (as amended). When no input name is \<open>"others"\<close> and two or more groups are renamed,
  the result has exactly one \<open>"others"\<close> row and it aggregates the renamed groups' sums
  only: the sum of their sums, the max of their sums, the min of their sums, and the mean
  and sample standard deviation of their sums.
\<close>

theorem others_row_aggregates_sums:
  assumes "''others'' \<notin> fst ` set gpu_kernel_time"
    and "num_kernels < int (card (fst ` set gpu_kernel_time))"
    and "quantile duration_ratio (cumsum (map row_sum (first_pass gpu_kernel_time))) = Inr quantiles"
    and "gsums = map row_sum (renamed_groups gpu_kernel_time num_kernels quantiles allowlist_names)"
    and "2 \<le> length gsums"
  shows "\<exists>out r. aggr_gpu_kernel_time gpu_kernel_time num_kernels duration_ratio allowlist_names = Inr out
    \<and> filter (\<lambda>r. row_name r = ''others'') out = [r]
    \<and> row_sum r = sum_list gsums
    \<and> row_max r = Max (set gsums)
    \<and> row_min r = Min (set gsums)
    \<and> row_mean r = real_of_int (sum_list gsums) / real (length gsums)
    \<and> row_std r = sqrt (sum_list (map (\<lambda>x. (real_of_int x - row_mean r)\<^sup>2) gsums) / real (length gsums - 1))"
proof -
  define rows where "rows = first_pass gpu_kernel_time"
  define R where "R = is_renamed allowlist_names num_kernels quantiles"
  define ps where "ps = map (\<lambda>irc. (if R irc then ''others'' else row_name (fst (snd irc)),
      row_sum (fst (snd irc)))) (indexed rows)"
  define out where "out = groupby_agg ps"
  have run: "aggr_gpu_kernel_time gpu_kernel_time num_kernels duration_ratio allowlist_names = Inr out"
    using assms(2,3)
    by (simp add: aggr_gpu_kernel_time_def Let_def length_first_pass renamed_pairs out_def ps_def
        R_def rows_def)
  have names: "\<forall>irc\<in>set (indexed rows). row_name (fst (snd irc)) \<noteq> ''others''"
  proof
    fix irc assume "irc \<in> set (indexed rows)"
    then have "fst (snd irc) \<in> set (map (\<lambda>irc. fst (snd irc)) (indexed rows))" by auto
    then have "fst (snd irc) \<in> set rows" by (simp only: rows_indexed)
    then have "row_name (fst (snd irc)) \<in> set (map row_name (first_pass gpu_kernel_time))"
      by (auto simp: rows_def)
    then show "row_name (fst (snd irc)) \<noteq> ''others''"
      using assms(1) by (auto simp only: set_names_first_pass)
  qed
  have vals: "map snd (filter (\<lambda>p. fst p = ''others'') ps) = gsums"
    unfolding ps_def others_values[OF names]
    by (simp add: assms(4) renamed_groups_def R_def rows_def)
  have "gsums \<noteq> []" using assms(5) by auto
  then have "filter (\<lambda>p. fst p = ''others'') ps \<noteq> []" using vals by auto
  then have "''others'' \<in> fst ` set ps"
    by (force simp: filter_empty_conv)
  then have sel: "filter (\<lambda>r. row_name r = ''others'') out = [agg ''others'' gsums]"
    by (simp add: out_def filter_name_groupby_agg vals)
  have "\<not> length gsums < 2" using assms(5) by simp
  then have fields: "row_sum (agg ''others'' gsums) = sum_list gsums"
    "row_max (agg ''others'' gsums) = Max (set gsums)"
    "row_min (agg ''others'' gsums) = Min (set gsums)"
    "row_mean (agg ''others'' gsums) = real_of_int (sum_list gsums) / real (length gsums)"
    "row_std (agg ''others'' gsums) =
       sqrt (sum_list (map (\<lambda>x. (real_of_int x - row_mean (agg ''others'' gsums))\<^sup>2) gsums) / real (length gsums - 1))"
    by (simp_all add: agg_def mean_agg_def std_agg_def fillna0_def)
  from run sel fields show ?thesis by blast
qed


theorem others_row_aggregates_sums_witness:
  "''others'' \<notin> fst ` set example_samples
   \<and> 1 < int (card (fst ` set example_samples))
   \<and> quantile 1 (cumsum (map row_sum (first_pass example_samples))) = Inr (Some 31)
   \<and> map row_sum (renamed_groups example_samples 1 (Some 31) None) = [8, 3]
   \<and> (\<exists>out r. aggr_gpu_kernel_time example_samples 1 1 None = Inr out
        \<and> filter (\<lambda>r. row_name r = ''others'') out = [r]
        \<and> row_sum r = 11 \<and> row_max r = 8 \<and> row_min r = 3 \<and> row_mean r = 11 / 2)"
proof -
  have h1: "''others'' \<notin> fst ` set example_samples"
    by (simp add: example_samples_def)
  have h2: "1 < int (card (fst ` set example_samples))"
    by code_simp
  have h3: "quantile 1 (cumsum (map row_sum (first_pass example_samples))) = Inr (Some 31)"
    by (simp add: topk_defs)
  have h4: "[8, 3] = map row_sum (renamed_groups example_samples 1 (Some 31) None)"
    by (simp add: topk_defs)
  have h5: "2 \<le> length [8, 3 :: int]" by simp
  from others_row_aggregates_sums[OF h1 h2 h3 h4 h5] h1 h2 h3 h4
  show ?thesis by auto
qed

text \<open>
  C3 (as stated) fails: with \<open>num_kernels = 1\<close> the groups \<open>b\<close> (durations 3, 5) and \<open>c\<close>
  (durations 1, 2) are renamed; the max of their maxes is 5 and the min of their mins is
  1, but the \<open>"others"\<close> row reports max 8 and min 3, the max and min of their sums.
\<close>

theorem others_row_counterexample:
  "map (\<lambda>r. (row_name r, row_sum r, row_max r, row_min r))
      (renamed_groups example_samples 1 (Some 31) None) = [(''b'', 8, 5, 3), (''c'', 3, 2, 1)]
   \<and> aggr_gpu_kernel_time example_samples 1 1 None =
     Inr [\<lparr>row_name = ''a'', row_sum = 20, row_max = 20, row_min = 20, row_mean = 20, row_std = 0\<rparr>,
          \<lparr>row_name = ''others'', row_sum = 11, row_max = 8, row_min = 3, row_mean = 11 / 2,
             row_std = sqrt (25 / 2)\<rparr>]"
  by (simp add: topk_defs)

theorem kept_rows_lose_statistics_witness:
  "1 < int (card (fst ` set example_samples))
   \<and> aggr_gpu_kernel_time example_samples 1 1 None =
     Inr [\<lparr>row_name = ''a'', row_sum = 20, row_max = 20, row_min = 20, row_mean = 20, row_std = 0\<rparr>,
          \<lparr>row_name = ''others'', row_sum = 11, row_max = 8, row_min = 3, row_mean = 11 / 2,
             row_std = sqrt (25 / 2)\<rparr>]
   \<and> sum_list (map snd (filter (\<lambda>p. fst p = ''a'') example_samples)) = 20
   \<and> map (\<lambda>r. (row_name r, row_max r)) (first_pass example_samples) =
       [(''a'', 10), (''b'', 5), (''c'', 2)]"
proof -
  let ?a = "\<lparr>row_name = ''a'', row_sum = 20, row_max = 20, row_min = 20, row_mean = 20, row_std = 0\<rparr>"
  let ?o = "\<lparr>row_name = ''others'', row_sum = 11, row_max = 8, row_min = 3, row_mean = 11 / 2,
             row_std = sqrt (25 / 2)\<rparr>"
  have h1: "1 < int (card (fst ` set example_samples))"
    by code_simp
  have h2: "aggr_gpu_kernel_time example_samples 1 1 None = Inr [?a, ?o]"
    by (simp add: topk_defs)
  have h3: "?a \<in> set [?a, ?o]" by simp
  have h4: "row_name ?a \<noteq> ''others''" by simp
  have fp: "map (\<lambda>r. (row_name r, row_max r)) (first_pass example_samples) =
       [(''a'', 10), (''b'', 5), (''c'', 2)]"
    by (simp add: topk_defs)
  from kept_rows_lose_statistics[OF h1 h2 h3 h4] h1 h2 fp show ?thesis by simp
qed

theorem quantile_rule_gated_by_cap_witness:
  "int (card (fst ` set example_samples)) \<le> 3
   \<and> aggr_gpu_kernel_time example_samples 3 0 None =
     Inr [\<lparr>row_name = ''a'', row_sum = 20, row_max = 10, row_min = 10, row_mean = 10, row_std = 0\<rparr>,
          \<lparr>row_name = ''b'', row_sum = 8, row_max = 5, row_min = 3, row_mean = 4, row_std = sqrt 2\<rparr>,
          \<lparr>row_name = ''c'', row_sum = 3, row_max = 2, row_min = 1, row_mean = 3 / 2,
             row_std = sqrt (1 / 2)\<rparr>]"
proof -
  have h: "int (card (fst ` set example_samples)) \<le> 3"
    by code_simp
  have fp: "first_pass example_samples =
     [\<lparr>row_name = ''a'', row_sum = 20, row_max = 10, row_min = 10, row_mean = 10, row_std = 0\<rparr>,
      \<lparr>row_name = ''b'', row_sum = 8, row_max = 5, row_min = 3, row_mean = 4, row_std = sqrt 2\<rparr>,
      \<lparr>row_name = ''c'', row_sum = 3, row_max = 2, row_min = 1, row_mean = 3 / 2,
         row_std = sqrt (1 / 2)\<rparr>]"
    by (simp add: topk_defs)
  from quantile_rule_gated_by_cap[OF h, where duration_ratio = 0 and allowlist_names = None] h fp show ?thesis by simp
qed

section \<open>User annotations: properties\<close>

lemmas anno_defs =
  get_gpu_kernels_with_user_annotations_def get_gpu_user_anno_interval_dataframe_def
  get_gpu_kernel_interval_dataframe_def from_arrays_def associate_gpu_kernels_with_user_annotations_def
  assign_annotation_def matches_def overlaps_def interval_def unique_def with_annotation_def anno_row_def


lemma matches_update [simp]: "matches (k\<lparr>user_annotation := u\<rparr>) a = matches k a"
  by (simp add: matches_def interval_def)

lemma foldl_assign:
  "foldl assign_annotation ks as =
     map (\<lambda>k. k\<lparr>user_annotation := final_annotation k as\<rparr>) ks"
proof (induction as rule: rev_induct)
  case Nil
  then show ?case by (simp add: final_annotation_def)
next
  case (snoc a as)
  have step: "assign_annotation (map (\<lambda>k. k\<lparr>user_annotation := final_annotation k as\<rparr>) ks) a =
      map (\<lambda>k. k\<lparr>user_annotation := final_annotation k (as @ [a])\<rparr>) ks"
    by (simp add: assign_annotation_def final_annotation_def)
  have "foldl assign_annotation ks (as @ [a]) = assign_annotation (foldl assign_annotation ks as) a"
    by simp
  also have "\<dots> = assign_annotation (map (\<lambda>k. k\<lparr>user_annotation := final_annotation k as\<rparr>) ks) a"
    by (simp only: snoc.IH)
  also note step
  finally show ?case .
qed

lemma foldl_blocks:
  "foldl (\<lambda>df p. foldl f df (g p)) df ps = foldl f df (concat (map g ps))"
  by (induction ps arbitrary: df) auto

lemma distinct_unique: "distinct (unique xs)"
  by (simp add: unique_def)

lemma set_unique: "set (unique xs) = set xs"
  by (simp add: unique_def)

lemma filter_blocks_aux:
  assumes "distinct qs" and "\<And>x. P x \<Longrightarrow> key x = p"
  shows "filter P (concat (map (\<lambda>q. filter (\<lambda>x. key x = q) xs) qs)) =
     (if p \<in> set qs then filter P xs else [])"
  using assms(1)
proof (induction qs)
  case Nil
  then show ?case by simp
next
  case (Cons q qs)
  have inner: "filter (\<lambda>x. key x = q \<and> P x) xs = (if q = p then filter P xs else [])"
    using assms(2) by (auto simp: filter_empty_conv intro: filter_cong)
  from Cons show ?case by (auto simp: inner)
qed

lemma filter_blocks:
  assumes "\<And>x. P x \<Longrightarrow> key x = p"
  shows "filter P (concat (map (\<lambda>q. filter (\<lambda>x. key x = q) xs) (unique (map key xs)))) = filter P xs"
proof -
  have "filter P xs = []" if "p \<notin> set (map key xs)"
    using that assms by (auto simp: filter_empty_conv)
  then show ?thesis
    using filter_blocks_aux[OF distinct_unique, where P = P and key = key and p = p and xs = xs
        and xs1 = "map key xs"] assms
    by (auto simp: set_unique)
qed

lemma associate_final:
  "associate_gpu_kernels_with_user_annotations ks as =
     map (\<lambda>k. k\<lparr>user_annotation := final_annotation k as\<rparr>) ks"
proof -
  have "final_annotation k (concat (map (\<lambda>p. filter (\<lambda>a. (pid a, tid a) = p) as)
      (unique (map (\<lambda>a. (pid a, tid a)) as)))) = final_annotation k as" for k
    unfolding final_annotation_def
    using filter_blocks[of "matches k" "\<lambda>a. (pid a, tid a)" "(pid k, tid k)" as]
    by (simp add: matches_def)
  moreover have "associate_gpu_kernels_with_user_annotations ks as =
      map (\<lambda>k. k\<lparr>user_annotation := final_annotation k (concat (map (\<lambda>p. filter (\<lambda>a. (pid a, tid a) = p) as)
      (unique (map (\<lambda>a. (pid a, tid a)) as))))\<rparr>) ks"
    by (unfold associate_gpu_kernels_with_user_annotations_def, subst foldl_blocks, rule foldl_assign)
  ultimately show ?thesis by simp
qed

lemma last_filter_sorted_min:
  assumes "sorted (map (\<lambda>e. - dur e) as)" and "filter P as \<noteq> []" and "a' \<in> set as" and "P a'"
  shows "dur (last (filter P as)) \<le> dur a'"
  using assms
proof (induction as)
  case Nil
  then show ?case by simp
next
  case (Cons a as)
  show ?case
  proof (cases "filter P as = []")
    case True
    with Cons.prems have "a' = a" by (auto simp: filter_empty_conv split: if_splits)
    with True Cons.prems show ?thesis by simp
  next
    case False
    then have l: "last (filter P (a # as)) = last (filter P as)" by simp
    have in_as: "last (filter P as) \<in> set as"
      using False last_in_set[of "filter P as"] by auto
    show ?thesis
    proof (cases "a' = a")
      case True
      with Cons.prems(1) in_as have "dur (last (filter P as)) \<le> dur a'" by auto
      with l show ?thesis by simp
    next
      case False2: False
      with Cons.prems have "a' \<in> set as" by simp
      with Cons.IH[OF _ False this Cons.prems(4)] Cons.prems(1) l show ?thesis by simp
    qed
  qed
qed


lemma from_arrays_Inr: "from_arrays df = Inr df' \<Longrightarrow> df' = df"
  by (auto simp: from_arrays_def split: if_splits)

lemma matches_with_annotation [simp]: "matches (with_annotation e u) a = matches e a"
  by (simp add: matches_def interval_def with_annotation_def)

text \<open>
  C7. For every rank, a GPU kernel of the returned table that overlaps at least one user
  annotation of its own pid and tid ends with \<open>user_annotation\<close> equal to the name of an
  overlapping annotation of smallest duration among all that overlap it: annotations are
  processed by descending duration and each later one overwrites the assignment. The
  witness is the case of annotation A \<open>[0, 1000)\<close>, nested annotation B \<open>[100, 200)\<close> and kernel
  K \<open>[120, 150)\<close>, which ends assigned to B.
\<close>

theorem innermost_annotation_wins:
  assumes "get_gpu_kernels_with_user_annotations is_gpu_kernel sym_id_map trace_df rank =
      (warnings, Inr (Some gpu_kernels_df))"
    and "sym_id_map ''gpu_user_annotation'' = Some anno_id"
    and "k \<in> set gpu_kernels_df"
    and "a0 \<in> set trace_df" and "cat a0 = anno_id" and "matches k a0"
  shows "\<exists>a\<in>set trace_df. cat a = anno_id \<and> matches k a \<and> user_annotation k = name a \<and>
     (\<forall>a'\<in>set trace_df. cat a' = anno_id \<and> matches k a' \<longrightarrow> dur a \<le> dur a')"
proof -
  define annos where "annos = sort_key (\<lambda>e. - dur e) (filter (\<lambda>e. cat e = anno_id) trace_df)"
  define kernels where "kernels = map (\<lambda>e. with_annotation e (- 1)) (filter is_gpu_kernel trace_df)"
  have result: "gpu_kernels_df = associate_gpu_kernels_with_user_annotations kernels annos"
    using assms(1,2)
    by (auto simp: get_gpu_kernels_with_user_annotations_def get_gpu_user_anno_interval_dataframe_def
        get_gpu_kernel_interval_dataframe_def Let_def annos_def kernels_def
        split: sum.splits option.splits if_splits dest!: from_arrays_Inr)
  with assms(3) obtain k0 where k0: "k0 \<in> set kernels"
    and k: "k = k0\<lparr>user_annotation := final_annotation k0 annos\<rparr>"
    by (auto simp: associate_final)
  have m: "matches k a = matches k0 a" for a :: event
    by (simp add: k)
  have set_annos: "set annos = {a \<in> set trace_df. cat a = anno_id}"
    by (auto simp: annos_def)
  have sorted: "sorted (map (\<lambda>e. - dur e) annos)"
    by (simp add: annos_def)
  have "a0 \<in> set (filter (matches k0) annos)"
    using assms(4,5,6) by (simp add: set_annos m)
  then have ne: "filter (matches k0) annos \<noteq> []"
    by (metis empty_iff list.set(1))
  define a where "a = last (filter (matches k0) annos)"
  have "a \<in> set (filter (matches k0) annos)"
    unfolding a_def using ne by (rule last_in_set)
  then have a_in: "a \<in> set trace_df" "cat a = anno_id" "matches k a"
    by (simp_all add: set_annos m)
  have ua: "user_annotation k = name a"
    using ne by (simp add: k final_annotation_def a_def)
  have "dur a \<le> dur a'" if "a' \<in> set trace_df" "cat a' = anno_id" "matches k a'" for a'
    unfolding a_def using sorted ne
  proof (rule last_filter_sorted_min)
    show "a' \<in> set annos" using that by (simp add: set_annos)
    show "matches k0 a'" using that by (simp add: m)
  qed
  with a_in ua show ?thesis by blast
qed

theorem innermost_annotation_wins_witness:
  "get_gpu_kernels_with_user_annotations (\<lambda>e. cat e = 1) [''gpu_user_annotation'' \<mapsto> 5]
     [anno_row 5 12 1 1 100 100, anno_row 5 11 1 1 0 1000, anno_row 1 20 1 1 120 30] 0 =
     ([], Inr (Some [with_annotation (anno_row 1 20 1 1 120 30) 12]))
   \<and> matches (with_annotation (anno_row 1 20 1 1 120 30) 12) (anno_row 5 11 1 1 0 1000)
   \<and> matches (with_annotation (anno_row 1 20 1 1 120 30) 12) (anno_row 5 12 1 1 100 100)
   \<and> (\<exists>a::event. name a = 12 \<and> dur a \<le> 1000 \<and> dur a \<le> 100 \<and>
        user_annotation (with_annotation (anno_row 1 20 1 1 120 30) 12) = name a)"
proof -
  let ?A = "anno_row 5 11 1 1 0 1000" and ?B = "anno_row 5 12 1 1 100 100"
  let ?K = "anno_row 1 20 1 1 120 30"
  have run: "get_gpu_kernels_with_user_annotations (\<lambda>e. cat e = 1) [''gpu_user_annotation'' \<mapsto> 5]
     [?B, ?A, ?K] 0 = ([], Inr (Some [with_annotation ?K 12]))"
    by (simp add: anno_defs)
  have sym: "[''gpu_user_annotation'' \<mapsto> (5::int)] ''gpu_user_annotation'' = Some 5" by simp
  have k: "with_annotation ?K 12 \<in> set [with_annotation ?K 12]" by simp
  have a0: "?A \<in> set [?B, ?A, ?K]" by simp
  have c0: "cat ?A = 5" by (simp add: anno_row_def)
  have mA: "matches (with_annotation ?K 12) ?A"
    by (simp add: matches_def overlaps_def interval_def anno_row_def with_annotation_def)
  have mB: "matches (with_annotation ?K 12) ?B"
    by (simp add: matches_def overlaps_def interval_def anno_row_def with_annotation_def)
  from innermost_annotation_wins[OF run sym k a0 c0 mA]
  obtain a where a: "a \<in> set [?B, ?A, ?K]" "cat a = 5" "user_annotation (with_annotation ?K 12) = name a"
    "\<forall>a'\<in>set [?B, ?A, ?K]. cat a' = 5 \<and> matches (with_annotation ?K 12) a' \<longrightarrow> dur a \<le> dur a'"
    by blast
  from a(4) mA mB have "dur a \<le> dur ?A" "dur a \<le> dur ?B"
    by (simp_all add: anno_row_def)
  then have "dur a \<le> 1000" "dur a \<le> 100" by (simp_all add: anno_row_def)
  moreover from a(3) have "name a = 12" by (simp add: with_annotation_def)
  ultimately show ?thesis using run mA mB a(3) by blast
qed

text \<open>
  C8. When the requested annotation category is absent from the symbol table,
  \<open>get_gpu_user_annotation_breakdown\<close> and \<open>get_gpu_kernels_with_user_annotations\<close> log
  one warning and return None, not an error and not a table; and None is returned in no
  other case (but for the id \<open>-1\<close>, which the second function reads as absent), so a present
  category without annotations gives a table.
\<close>

theorem missing_category_unavailable:
  "(sym_index (if use_gpu_annotation then ''gpu_user_annotation'' else ''user_annotation'') = None \<longrightarrow>
      get_gpu_user_annotation_breakdown sym_index decode find_matched_symbols traces
          use_gpu_annotation duration_ratio num_kernels allowlist_patterns =
        ([NoAnnotationCategory (if use_gpu_annotation then ''gpu_user_annotation'' else ''user_annotation'')],
         Inr None))
   \<and> (sym_id_map ''gpu_user_annotation'' = None \<longrightarrow>
      get_gpu_kernels_with_user_annotations is_gpu_kernel sym_id_map trace_df rank =
        ([NoGpuUserAnnotations rank], Inr None))
   \<and> (snd (get_gpu_user_annotation_breakdown sym_index decode find_matched_symbols traces
          use_gpu_annotation duration_ratio num_kernels allowlist_patterns) = Inr None
        \<longleftrightarrow> sym_index (if use_gpu_annotation then ''gpu_user_annotation'' else ''user_annotation'') = None)
   \<and> (snd (get_gpu_kernels_with_user_annotations is_gpu_kernel sym_id_map trace_df rank) = Inr None
        \<longleftrightarrow> sym_id_map ''gpu_user_annotation'' = None \<or> sym_id_map ''gpu_user_annotation'' = Some (- 1))"
  by (auto simp: get_gpu_user_annotation_breakdown_def get_gpu_kernels_with_user_annotations_def
      get_gpu_user_anno_interval_dataframe_def Let_def split: option.splits sum.splits if_splits)


theorem missing_category_unavailable_witness:
  "get_gpu_user_annotation_breakdown Map.empty (\<lambda>i. ''f'') (\<lambda>ps. ps)
      [(0, [anno_row 1 20 1 1 120 30])] True (4 / 5) 1000 None =
     ([NoAnnotationCategory ''gpu_user_annotation''], Inr None)
   \<and> get_gpu_kernels_with_user_annotations (\<lambda>e. cat e = 1) Map.empty [anno_row 1 20 1 1 120 30] 0 =
     ([NoGpuUserAnnotations 0], Inr None)
   \<and> get_gpu_user_annotation_breakdown [''gpu_user_annotation'' \<mapsto> 5] (\<lambda>i. ''f'') (\<lambda>ps. ps)
      [(0, [anno_row 1 20 1 1 120 30])] True (4 / 5) 1000 None = ([], Inr (Some []))"
proof -
  have present: "get_gpu_user_annotation_breakdown [''gpu_user_annotation'' \<mapsto> 5] (\<lambda>i. ''f'') (\<lambda>ps. ps)
      [(0, [anno_row 1 20 1 1 120 30])] True (4 / 5) 1000 None = ([], Inr (Some []))"
    by (simp add: get_gpu_user_annotation_breakdown_def anno_row_def topk_defs)
  from missing_category_unavailable[where sym_index = Map.empty and use_gpu_annotation = True
      and sym_id_map = Map.empty and rank = 0 and decode = "\<lambda>i. ''f''"
      and find_matched_symbols = "\<lambda>ps. ps" and traces = "[(0, [anno_row 1 20 1 1 120 30])]"
      and duration_ratio = "4 / 5" and num_kernels = 1000 and allowlist_patterns = None
      and is_gpu_kernel = "\<lambda>e. cat e = 1" and trace_df = "[anno_row 1 20 1 1 120 30]"]
    present
  show ?thesis by simp
qed

section \<open>Kernel-type overlap: properties\<close>

lemma next_time_int_Cons2: "next_time_int (r # r' # rest) = Some (snd r') # next_time_int (r' # rest)"
  by (simp add: next_time_int_def)

lemma rows_from_total: "sum_list (map row_dur (rows_from acc df)) = sweep_total acc df"
proof (induction acc df rule: sweep_total.induct)
  case (1 acc)
  then show ?case by (simp add: rows_from_def)
next
  case (2 acc r)
  then show ?case by (simp add: rows_from_def next_time_int_def row_dur_def)
next
  case (3 acc r r' rest)
  have "rows_from acc (r # r' # rest) =
      (if 0 < acc + fst r then [(snd r, acc + fst r, Some (snd r'))] else []) @ rows_from (acc + fst r) (r' # rest)"
    by (simp add: rows_from_def next_time_int_Cons2 del: next_time_int_def)
  with 3 show ?case by (simp add: row_dur_def)
qed

lemma rows_from_None:
  "list_ex (\<lambda>r. snd (snd r) = None) (rows_from acc df) \<longleftrightarrow> df \<noteq> [] \<and> 0 < acc + sum_list (map fst df)"
proof (induction acc df rule: sweep_total.induct)
  case (1 acc)
  then show ?case by (simp add: rows_from_def)
next
  case (2 acc r)
  then show ?case by (simp add: rows_from_def next_time_int_def)
next
  case (3 acc r r' rest)
  have "rows_from acc (r # r' # rest) =
      (if 0 < acc + fst r then [(snd r, acc + fst r, Some (snd r'))] else []) @ rows_from (acc + fst r) (r' # rest)"
    by (simp add: rows_from_def next_time_int_Cons2 del: next_time_int_def)
  with 3 show ?case by (simp add: add.assoc)
qed

lemma next_time_col_int: "next_time_col df = map (map_option f64) (next_time_int df)"
  by (cases df) (simp_all add: next_time_col_def next_time_int_def)

lemma zip3_map_third:
  "length bs = length cs \<Longrightarrow>
   zip as (zip bs (map g cs)) = map (\<lambda>r. (fst r, fst (snd r), g (snd (snd r)))) (zip as (zip bs cs))"
proof (induction bs cs arbitrary: as rule: list_induct2)
  case Nil
  then show ?case by simp
next
  case (Cons b bs c cs)
  then show ?case by (cases as) simp_all
qed

lemma length_next_time_int: "length (next_time_int df) = length df"
  by (cases df) (simp_all add: next_time_int_def)

lemma active_rows_rows_from:
  "active_rows df = map (\<lambda>r. (fst r, fst (snd r), map_option f64 (snd (snd r)))) (rows_from 0 df)"
proof -
  have len: "length (cumsum_from 0 (map fst df)) = length (next_time_int df)"
    by (simp add: length_cumsum_from length_next_time_int)
  show ?thesis
    unfolding active_rows_def rows_from_def running_col_def cumsum_def next_time_col_int
      zip3_map_third[OF len]
    by (simp add: filter_map comp_def)
qed

lemma rows_from_times:
  "r \<in> set (rows_from acc df) \<Longrightarrow>
     fst r \<in> snd ` set df \<and> (\<forall>n. snd (snd r) = Some n \<longrightarrow> n \<in> snd ` set df)"
proof (induction acc df rule: sweep_total.induct)
  case (1 acc)
  then show ?case by (simp add: rows_from_def)
next
  case (2 acc r0)
  then show ?case by (auto simp: rows_from_def next_time_int_def split: if_splits)
next
  case (3 acc r0 r' rest)
  have "rows_from acc (r0 # r' # rest) =
      (if 0 < acc + fst r0 then [(snd r0, acc + fst r0, Some (snd r'))] else []) @ rows_from (acc + fst r0) (r' # rest)"
    by (simp add: rows_from_def next_time_int_Cons2 del: next_time_int_def)
  with "3.prems" consider "r = (snd r0, acc + fst r0, Some (snd r'))"
    | "r \<in> set (rows_from (acc + fst r0) (r' # rest))"
    by (auto split: if_splits)
  then show ?case
  proof cases
    case 1
    then show ?thesis by simp
  next
    case 2
    from "3.IH"[OF this] show ?thesis by auto
  qed
qed

text \<open>Where every time of the table is between 0 and \<open>2^53\<close>, float64 holds the times and
  their differences exactly, and the float columns are the exact ones.\<close>

lemma dur_col_exact:
  assumes "\<forall>t\<in>snd ` set df. 0 \<le> t \<and> t \<le> 2 ^ 53"
  shows "map (\<lambda>r. (lbl (fst (snd r)), dur_col r)) (active_rows df) =
     map (\<lambda>r. (lbl (fst (snd r)), row_dur r)) (rows_from 0 df)"
proof -
  have "dur_col (fst r, fst (snd r), map_option f64 (snd (snd r))) = row_dur r"
    if "r \<in> set (rows_from 0 df)" for r
  proof (cases "snd (snd r)")
    case None
    then show ?thesis by (simp add: dur_col_def row_dur_def)
  next
    case (Some n)
    from rows_from_times[OF that] Some assms
    have b: "0 \<le> fst r" "fst r \<le> 2 ^ 53" "0 \<le> n" "n \<le> 2 ^ 53" by auto
    then have "f64_exact (fst r)" "f64_exact n" "f64_exact (n - fst r)"
      by (simp_all add: f64_exact_def)
    then show ?thesis
      using Some by (simp add: dur_col_def row_dur_def f64_exact_id)
  qed
  then show ?thesis
    by (simp add: active_rows_rows_from comp_def)
qed

lemma active_rows_None:
  "list_ex (\<lambda>r. snd (snd r) = None) (active_rows df) \<longleftrightarrow>
   list_ex (\<lambda>r. snd (snd r) = None) (rows_from 0 df)"
  by (simp add: active_rows_rows_from list_ex_iff)

lemma times_melt: "snd ` set (melt v ivs) = fst ` set ivs \<union> snd ` set ivs"
  by (simp add: melt_def image_Un image_image)

lemma times_sweep_events:
  "snd ` set (sweep_events df idx ivss) = snd ` set df \<union> (\<Union>ivs\<in>set ivss. fst ` set ivs \<union> snd ` set ivs)"
proof (induction ivss arbitrary: df idx)
  case Nil
  then show ?case by simp
next
  case (Cons ivs ivss)
  have "snd ` set (sort_key snd (df @ melt (push_bit idx 1) ivs)) =
      snd ` set df \<union> (fst ` set ivs \<union> snd ` set ivs)"
    by (simp add: image_Un times_melt)
  then show ?case
    by (simp add: Cons.IH Un_assoc)
qed

lemma level_append: "level (xs @ ys) t = level xs t + level ys t"
  by (simp add: level_def)

lemma level_mset: "mset xs = mset ys \<Longrightarrow> level xs t = level ys t"
proof -
  assume a: "mset xs = mset ys"
  have "level zs t = sum_mset (image_mset fst (filter_mset (\<lambda>r. snd r \<le> t) (mset zs)))" for zs
    unfolding level_def by (metis mset_filter mset_map sum_mset_sum_list)
  with a show ?thesis by simp
qed

lemma level_sort_key: "level (sort_key f xs) t = level xs t"
  by (rule level_mset) simp

lemma level_melt:
  assumes "\<forall>iv\<in>set ivs. fst iv \<le> snd iv"
  shows "level (melt v ivs) t = v * int (active_count ivs t)"
  using assms
proof (induction ivs)
  case Nil
  then show ?case by (simp add: melt_def level_def active_count_def)
next
  case (Cons iv ivs)
  then have IH: "level (melt v ivs) t = v * int (active_count ivs t)" by simp
  have split: "level (melt v (iv # ivs)) t =
      (if fst iv \<le> t then v else 0) + (if snd iv \<le> t then - v else 0) + level (melt v ivs) t"
    by (simp add: melt_def level_def)
  from Cons.prems have "fst iv \<le> snd iv" by simp
  then show ?case
    unfolding split IH by (auto simp: active_count_def algebra_simps)
qed

lemma level_sweep_events:
  assumes "\<forall>ivs\<in>set ivss. \<forall>iv\<in>set ivs. fst iv \<le> snd iv"
  shows "level (sweep_events df idx ivss) t = level df t + weight idx ivss t"
  using assms
proof (induction ivss arbitrary: df idx)
  case Nil
  then show ?case by simp
next
  case (Cons ivs ivss)
  then show ?case
    by (simp add: level_sort_key level_append level_melt)
qed

lemma sorted_sweep_events:
  "sorted (map snd df) \<Longrightarrow> sorted (map snd (sweep_events df idx ivss))"
  by (induction ivss arbitrary: df idx) auto

lemma sum_melt: "sum_list (map fst (melt v ivs)) = 0"
  by (induction ivs) (auto simp: melt_def)

lemma sum_mset_eq: "mset xs = mset ys \<Longrightarrow> sum_list (map fst xs) = sum_list (map fst ys)"
  for xs :: "(int \<times> int) list"
  by (metis mset_map sum_mset_sum_list)

lemma sum_sweep_events:
  "sum_list (map fst (sweep_events df idx ivss)) = sum_list (map fst df)"
proof (induction ivss arbitrary: df idx)
  case Nil
  then show ?case by simp
next
  case (Cons ivs ivss)
  have "sum_list (map fst (sort_key snd (df @ melt (push_bit idx 1) ivs))) =
      sum_list (map fst (df @ melt (push_bit idx 1) ivs))"
    by (rule sum_mset_eq) simp
  with Cons show ?case by (simp add: sum_melt)
qed

lemma weight_nonneg: "0 \<le> weight idx ivss t"
  by (induction ivss arbitrary: idx) (auto simp: push_bit_eq_mult)

lemma weight_pos_iff: "0 < weight idx ivss t \<longleftrightarrow> t \<in> covered (concat ivss)"
proof (induction ivss arbitrary: idx)
  case Nil
  then show ?case by (simp add: covered_def)
next
  case (Cons ivs ivss)
  have cov: "t \<in> covered ivs \<longleftrightarrow> 0 < active_count ivs t"
    by (auto simp: covered_def active_count_def filter_empty_conv)
  have p: "0 < (push_bit idx 1 :: int)" by (simp add: push_bit_eq_mult)
  have "0 < push_bit idx 1 * int (active_count ivs t) + weight (Suc idx) ivss t \<longleftrightarrow>
      0 < active_count ivs t \<or> 0 < weight (Suc idx) ivss t"
  proof (cases "active_count ivs t = 0")
    case True
    then show ?thesis by simp
  next
    case False
    then have "0 < push_bit idx 1 * int (active_count ivs t)"
      using p by simp
    then have "0 < push_bit idx 1 * int (active_count ivs t) + weight (Suc idx) ivss t"
      using weight_nonneg[of "Suc idx" ivss t] by linarith
    with False show ?thesis by simp
  qed
  then show ?case
    using Cons[of "Suc idx"] cov by (auto simp: covered_def)
qed


lemma level_Cons: "level (r # df) t = (if snd r \<le> t then fst r else 0) + level df t"
  by (simp add: level_def)

lemma level_before:
  assumes "\<forall>x\<in>set df. t < snd x"
  shows "level df t = 0"
proof -
  have "filter (\<lambda>r. snd r \<le> t) df = []"
    using assms by (auto simp: filter_empty_conv)
  then show ?thesis by (simp add: level_def)
qed

lemma level_after:
  assumes "\<forall>x\<in>set df. snd x \<le> t"
  shows "level df t = sum_list (map fst df)"
proof -
  have "filter (\<lambda>r. snd r \<le> t) df = df"
    using assms by (auto simp: filter_id_conv)
  then show ?thesis by (simp add: level_def)
qed

lemma sweep_total_card:
  assumes "sorted (map snd df)" and "df \<noteq> []"
  shows "sweep_total acc df =
     int (card {t. snd (hd df) \<le> t \<and> t < snd (last df) \<and> 0 < acc + level df t})"
  using assms
proof (induction acc df rule: sweep_total.induct)
  case (1 acc)
  then show ?case by simp
next
  case (2 acc r)
  have "{t. snd r \<le> t \<and> t < snd r \<and> 0 < acc + level [r] t} = {}" by auto
  then have "card {t. snd r \<le> t \<and> t < snd r \<and> 0 < acc + level [r] t} = 0"
    by (simp only: card.empty)
  then show ?case by simp
next
  case (3 acc r r' rest)
  define lo where "lo = snd r"
  define mid where "mid = snd r'"
  define hi where "hi = snd (last (r' # rest))"
  let ?df = "r # r' # rest"
  from "3.prems" have sorted': "sorted (map snd (r' # rest))" by simp
  from "3.prems" have lo_mid: "lo \<le> mid" by (simp add: lo_def mid_def)
  from sorted' have after: "\<forall>x\<in>set (r' # rest). mid \<le> snd x"
    by (auto simp: mid_def)
  have "last (r' # rest) \<in> set (r' # rest)" by (rule last_in_set) simp
  with after have mid_hi: "mid \<le> hi" by (simp add: hi_def)
  have lev_A: "level ?df t = fst r" if "lo \<le> t" "t < mid" for t
  proof -
    have "\<forall>x\<in>set (r' # rest). t < snd x" using after that by force
    then have "level (r' # rest) t = 0" by (rule level_before)
    with that show ?thesis by (simp add: level_Cons[of r] lo_def)
  qed
  have lev_B: "level ?df t = fst r + level (r' # rest) t" if "mid \<le> t" for t
    using that lo_mid by (simp add: level_Cons[of r] lo_def)
  define A where "A = {t. lo \<le> t \<and> t < mid \<and> 0 < acc + fst r}"
  define B where "B = {t. mid \<le> t \<and> t < hi \<and> 0 < acc + fst r + level (r' # rest) t}"
  have split: "{t. lo \<le> t \<and> t < hi \<and> 0 < acc + level ?df t} = A \<union> B"
  proof (rule set_eqI)
    fix t
    show "t \<in> {t. lo \<le> t \<and> t < hi \<and> 0 < acc + level ?df t} \<longleftrightarrow> t \<in> A \<union> B"
    proof (cases "t < mid")
      case True
      then show ?thesis
        using lev_A[of t] mid_hi by (auto simp: A_def B_def)
    next
      case False
      then show ?thesis
        using lev_B[of t] lo_mid by (auto simp: A_def B_def add.assoc)
    qed
  qed
  have fin: "finite A" "finite B"
  proof -
    have "A \<subseteq> {lo..<mid}" "B \<subseteq> {mid..<hi}" by (auto simp: A_def B_def)
    then show "finite A" "finite B" by (auto intro: finite_subset)
  qed
  have disj: "A \<inter> B = {}" by (auto simp: A_def B_def)
  have cardA: "int (card A) = (if 0 < acc + fst r then mid - lo else 0)"
  proof (cases "0 < acc + fst r")
    case True
    then have "A = {lo..<mid}" by (auto simp: A_def)
    with True lo_mid show ?thesis by simp
  next
    case False
    then have "A = {}" by (auto simp: A_def)
    with False show ?thesis by simp
  qed
  have cardB: "int (card B) = sweep_total (acc + fst r) (r' # rest)"
    using "3.IH"[OF sorted'] by (simp add: B_def mid_def hi_def)
  have "int (card (A \<union> B)) = int (card A) + int (card B)"
    using card_Un_disjoint[OF fin disj] by simp
  also have "\<dots> = sweep_total acc ?df"
    by (simp add: cardA cardB lo_def mid_def)
  finally show ?case
    using split by (simp add: lo_def hi_def)
qed

lemma sweep_total_level:
  assumes "sorted (map snd df)" and "sum_list (map fst df) = 0"
  shows "sweep_total 0 df = int (card {t. 0 < level df t})"
proof (cases "df = []")
  case True
  then show ?thesis by (simp add: level_def)
next
  case False
  have lo: "\<forall>x\<in>set df. snd (hd df) \<le> snd x"
    using assms(1) False by (cases df) auto
  have hi: "\<forall>x\<in>set df. snd x \<le> snd (last df)"
  proof
    fix x assume "x \<in> set df"
    then obtain i where i: "i < length df" "df ! i = x" by (auto simp: in_set_conv_nth)
    have "map snd df ! i \<le> map snd df ! (length df - 1)"
      using assms(1) i(1) by (intro sorted_nth_mono) auto
    with i False show "snd x \<le> snd (last df)" by (simp add: last_conv_nth)
  qed
  have "{t. snd (hd df) \<le> t \<and> t < snd (last df) \<and> 0 < 0 + level df t} = {t. 0 < level df t}"
  proof (rule set_eqI)
    fix t
    have "level df t = 0" if "t < snd (hd df)"
      using lo that by (intro level_before) force
    moreover have "level df t = 0" if "snd (last df) \<le> t"
      using hi that level_after[of df t] assms(2) by force
    ultimately show "t \<in> {t. snd (hd df) \<le> t \<and> t < snd (last df) \<and> 0 < 0 + level df t} \<longleftrightarrow>
        t \<in> {t. 0 < level df t}"
      by (cases "t < snd (hd df)"; cases "snd (last df) \<le> t") auto
  qed
  with sweep_total_card[OF assms(1) False, of 0] show ?thesis by simp
qed

lemma sum_groupby_sum: "sum_list (map snd (groupby_sum rows)) = sum_list (map snd rows)"
proof -
  define ks where "ks = sort (remdups (map fst rows))"
  have d: "distinct ks" and s: "set ks = fst ` set rows" by (simp_all add: ks_def)
  have gen: "(\<Sum>k\<in>K. sum_list (map snd (filter (\<lambda>r. fst r = k) xs))) = sum_list (map snd xs)"
    if "finite K" "fst ` set xs \<subseteq> K" for K and xs :: "(string \<times> int) list"
    using that
  proof (induction xs)
    case Nil
    then show ?case by simp
  next
    case (Cons x xs)
    have "(\<Sum>k\<in>K. sum_list (map snd (filter (\<lambda>r. fst r = k) (x # xs)))) =
        (\<Sum>k\<in>K. (if fst x = k then snd x else 0) + sum_list (map snd (filter (\<lambda>r. fst r = k) xs)))"
      by (intro sum.cong) auto
    also have "\<dots> = (\<Sum>k\<in>K. if fst x = k then snd x else 0) +
        (\<Sum>k\<in>K. sum_list (map snd (filter (\<lambda>r. fst r = k) xs)))"
      by (simp add: sum.distrib)
    also have "(\<Sum>k\<in>K. if fst x = k then snd x else 0) = snd x"
      using Cons.prems by (simp add: sum.delta')
    finally show ?case using Cons by simp
  qed
  have "sum_list (map snd (groupby_sum rows)) =
      sum_list (map (\<lambda>k. sum_list (map snd (filter (\<lambda>r. fst r = k) rows))) ks)"
    by (simp add: groupby_sum_def ks_def comp_def)
  also have "\<dots> = (\<Sum>k\<in>set ks. sum_list (map snd (filter (\<lambda>r. fst r = k) rows)))"
    using d by (simp add: sum_list_distinct_conv_sum_set)
  also have "\<dots> = sum_list (map snd rows)"
    using gen[of "set ks" rows] s by simp
  finally show ?thesis .
qed

lemma premerged_le: "premerged ivs \<Longrightarrow> \<forall>iv\<in>set ivs. fst iv \<le> snd iv"
  by (induction ivs rule: premerged.induct) auto

text \<open>
  C1 (as amended). For every list of kernel types with pre-merged intervals whose
  timestamps lie between 0 and \<open>2^53\<close> (the integers float64 holds exactly), the sweep of
  \<open>_get_gpu_kernel_type_time\<close> returns a table, and the durations of its labels add up to
  the total length of the union of all the intervals: the number of instants covered by
  at least one of them. No covered time is counted twice or lost, and time where no
  category is active is in no label's total.
\<close>

theorem sweep_conserves_time:
  assumes "\<forall>m\<in>set merged. premerged (snd m)"
    and "\<forall>m\<in>set merged. \<forall>iv\<in>set (snd m). 0 \<le> fst iv \<and> snd iv \<le> 2 ^ 53"
  shows "\<exists>out. get_gpu_kernel_type_time_merged merged = Inr out \<and>
     sum_list (map snd out) = int (card (covered (concat (map snd merged))))"
proof -
  define df where "df = sweep_events [] 0 (map snd merged)"
  define mapping where "mapping = kernel_t_mapping_from [] 0 (map fst merged)"
  have le: "\<forall>ivs\<in>set (map snd merged). \<forall>iv\<in>set ivs. fst iv \<le> snd iv"
    using assms(1) premerged_le by auto
  have range: "\<forall>t\<in>snd ` set df. 0 \<le> t \<and> t \<le> 2 ^ 53"
  proof
    fix t assume "t \<in> snd ` set df"
    then obtain m iv where m: "m \<in> set merged" "iv \<in> set (snd m)" "t = fst iv \<or> t = snd iv"
      unfolding df_def times_sweep_events by auto
    with assms(2) have "0 \<le> fst iv" "snd iv \<le> 2 ^ 53" by auto
    moreover from le m have "fst iv \<le> snd iv" by auto
    ultimately show "0 \<le> t \<and> t \<le> 2 ^ 53" using m(3) by auto
  qed
  have sorted: "sorted (map snd df)"
    unfolding df_def by (rule sorted_sweep_events) simp
  have zero: "sum_list (map fst df) = 0"
    by (simp add: df_def sum_sweep_events)
  have no_nan: "\<not> list_ex (\<lambda>r. snd (snd r) = None) (active_rows df)"
    by (simp add: active_rows_None rows_from_None zero)
  define out where "out = groupby_sum (map (\<lambda>r. (kernel_type_label mapping (fst (snd r)), dur_col r))
      (active_rows df))"
  have run: "get_gpu_kernel_type_time_merged merged = Inr out"
    using no_nan
    by (simp add: get_gpu_kernel_type_time_merged_def Let_def df_def[symmetric] mapping_def[symmetric]
        out_def)
  have "out = groupby_sum (map (\<lambda>r. (kernel_type_label mapping (fst (snd r)), row_dur r)) (rows_from 0 df))"
    unfolding out_def using range by (simp only: dur_col_exact)
  then have "sum_list (map snd out) = sum_list (map row_dur (rows_from 0 df))"
    by (simp add: sum_groupby_sum comp_def)
  also have "\<dots> = sweep_total 0 df"
    by (simp add: rows_from_total)
  also have "\<dots> = int (card {t. 0 < level df t})"
    using sorted zero by (rule sweep_total_level)
  also have "{t. 0 < level df t} = covered (concat (map snd merged))"
    using level_sweep_events[OF le, of "[]" 0] weight_pos_iff[of 0 "map snd merged"]
    by (auto simp: df_def level_def)
  finally show ?thesis using run by blast
qed

theorem sweep_conserves_time_witness:
  "premerged [(0, 10), (20, 30)] \<and> premerged [(5, 25)]
   \<and> get_gpu_kernel_type_time_merged
       [(''COMPUTATION'', [(0, 10), (20, 30)]), (''COMMUNICATION'', [(5, 25)])] =
     Inr [(''COMMUNICATION'', 10), (''COMPUTATION'', 10),
          (''COMPUTATION overlapping COMMUNICATION'', 10)]
   \<and> int (card (covered [(0, 10), (20, 30), (5, 25)])) = 30"
proof -
  have pre: "\<forall>m\<in>set [(''COMPUTATION'', [(0, 10), (20, 30)]), (''COMMUNICATION'', [(5, 25 :: int)])].
      premerged (snd m)"
    by simp
  have range: "\<forall>m\<in>set [(''COMPUTATION'', [(0 :: int, 10 :: int), (20, 30)]), (''COMMUNICATION'', [(5, 25)])].
      \<forall>iv\<in>set (snd m). 0 \<le> fst iv \<and> snd iv \<le> 2 ^ 53"
    by simp
  have run: "get_gpu_kernel_type_time_merged
       [(''COMPUTATION'', [(0, 10), (20, 30)]), (''COMMUNICATION'', [(5, 25)])] =
     Inr [(''COMMUNICATION'', 10), (''COMPUTATION'', 10),
          (''COMPUTATION overlapping COMMUNICATION'', 10)]"
    by code_simp
  from sweep_conserves_time[OF pre range] run
  have "int (card (covered [(0, 10), (20, 30), (5, 25)])) = 30" by simp
  with run show ?thesis by simp
qed

text \<open>
  C1 (as stated) fails for timestamps float64 does not hold: for the single computation
  interval \<open>[2^53 + 1, 2^53 + 3)\<close>, of length 2, \<open>next_time\<close> is rounded to \<open>2^53 + 4\<close> and
  \<open>time\<close> to \<open>2^53\<close>, and the label's total is 4.
\<close>

theorem sweep_large_times_counterexample:
  "premerged [(9007199254740993, 9007199254740995)]
   \<and> get_gpu_kernel_type_time_merged
       [(''COMPUTATION'', [(9007199254740993, 9007199254740995)])] = Inr [(''COMPUTATION'', 4)]
   \<and> int (card (covered [(9007199254740993, 9007199254740995)])) = 2"
proof -
  have "get_gpu_kernel_type_time_merged
       [(''COMPUTATION'', [(9007199254740993, 9007199254740995)])] = Inr [(''COMPUTATION'', 4)]"
    by code_simp
  moreover have "int (card (covered [(9007199254740993, 9007199254740995)])) = 2"
    by (simp add: covered_def)
  ultimately show ?thesis by simp
qed

section \<open>Temporal breakdown: properties\<close>

lemmas temporal_defs =
  idle_time_per_rank_def get_idle_time_for_kernels_def merge_kernel_intervals_def merged_time_def
  interval_def kernel_row_def example_kernel_type_def get_temporal_breakdown_def bind_error_def
  add_ratio_pctg_def get_col_def set_col_def result_frame_def int_col_def pctg_of_ratio_def
  scale100_def round2_def rint_def


lemma finite_covered: "finite (covered ivs)"
  by (simp add: covered_def)

lemma covered_Cons: "covered (iv # ivs) = {fst iv..<snd iv} \<union> covered ivs"
  by (simp add: covered_def)

lemma covered_set: "set xs = set ys \<Longrightarrow> covered xs = covered ys"
  by (simp add: covered_def)

lemma covered_mono: "set xs \<subseteq> set ys \<Longrightarrow> covered xs \<subseteq> covered ys"
  by (auto simp: covered_def)

lemma premerged_Cons:
  "premerged (iv # ivs) \<longleftrightarrow>
     fst iv \<le> snd iv \<and> (ivs \<noteq> [] \<longrightarrow> snd iv \<le> fst (hd ivs)) \<and> premerged ivs"
  by (cases ivs) auto

lemma premerged_later:
  "premerged (iv # ivs) \<Longrightarrow> \<forall>iv'\<in>set ivs. snd iv \<le> fst iv'"
proof (induction ivs arbitrary: iv)
  case Nil
  then show ?case by simp
next
  case (Cons a ivs)
  from Cons.prems have a: "fst iv \<le> snd iv" "snd iv \<le> fst a" "premerged (a # ivs)" by auto
  from Cons.IH[OF a(3)] have "\<forall>iv'\<in>set ivs. snd a \<le> fst iv'" .
  moreover from a(3) have "fst a \<le> snd a" by (simp add: premerged_Cons)
  ultimately show ?case using a(2) by auto
qed

lemma merged_time_Cons: "merged_time (iv # ivs) = (snd iv - fst iv) + merged_time ivs"
  by (simp add: merged_time_def)

lemma merged_time_card:
  "premerged ivs \<Longrightarrow> merged_time ivs = int (card (covered ivs))"
proof (induction ivs)
  case Nil
  then show ?case by (simp add: merged_time_def covered_def)
next
  case (Cons iv ivs)
  then have le: "fst iv \<le> snd iv" and pm: "premerged ivs" by (simp_all add: premerged_Cons)
  have later: "\<forall>iv'\<in>set ivs. snd iv \<le> fst iv'"
    using Cons.prems by (rule premerged_later)
  have disj: "{fst iv..<snd iv} \<inter> covered ivs = {}"
    using later by (fastforce simp: covered_def)
  have "card (covered (iv # ivs)) = card {fst iv..<snd iv} + card (covered ivs)"
    unfolding covered_Cons using disj by (intro card_Un_disjoint) (simp_all add: finite_covered)
  then show ?case
    using Cons.IH[OF pm] le by (simp add: merged_time_Cons)
qed

lemma merged_time_window:
  "premerged ivs \<Longrightarrow> ivs \<noteq> [] \<Longrightarrow> merged_time ivs \<le> snd (last ivs) - fst (hd ivs)"
proof (induction ivs)
  case Nil
  then show ?case by simp
next
  case (Cons iv ivs)
  show ?case
  proof (cases "ivs = []")
    case True
    then show ?thesis by (simp add: merged_time_def)
  next
    case False
    from Cons.prems have "snd iv \<le> fst (hd ivs)" "premerged ivs"
      using False by (simp_all add: premerged_Cons)
    with Cons.IH False show ?thesis by (simp add: merged_time_Cons)
  qed
qed

lemma merge_scan_hd: "merge_scan cur rest \<noteq> [] \<and> fst (hd (merge_scan cur rest)) = fst cur"
  by (induction rest arbitrary: cur) auto

lemma premerged_merge_scan:
  assumes "sorted (map fst (cur # rest))" and "\<forall>iv\<in>set (cur # rest). fst iv \<le> snd iv"
  shows "premerged (merge_scan cur rest)"
  using assms
proof (induction rest arbitrary: cur)
  case Nil
  then show ?case by simp
next
  case (Cons nxt rest)
  show ?case
  proof (cases "fst nxt \<le> snd cur")
    case True
    have "premerged (merge_scan (fst cur, max (snd cur) (snd nxt)) rest)"
      using Cons.prems by (intro Cons.IH) auto
    with True show ?thesis by simp
  next
    case False
    have "premerged (merge_scan nxt rest)"
      using Cons.prems by (intro Cons.IH) auto
    with False Cons.prems merge_scan_hd[of nxt rest] show ?thesis
      by (simp add: premerged_Cons)
  qed
qed

lemma covered_merge_scan:
  assumes "sorted (map fst (cur # rest))" and "\<forall>iv\<in>set (cur # rest). fst iv \<le> snd iv"
  shows "covered (merge_scan cur rest) = covered (cur # rest)"
  using assms
proof (induction rest arbitrary: cur)
  case Nil
  then show ?case by simp
next
  case (Cons nxt rest)
  show ?case
  proof (cases "fst nxt \<le> snd cur")
    case True
    have "covered (merge_scan (fst cur, max (snd cur) (snd nxt)) rest) =
        covered ((fst cur, max (snd cur) (snd nxt)) # rest)"
      using Cons.prems by (intro Cons.IH) auto
    moreover have "{fst cur..<max (snd cur) (snd nxt)} = {fst cur..<snd cur} \<union> {fst nxt..<snd nxt}"
      using True Cons.prems by auto
    ultimately show ?thesis using True by (simp add: covered_Cons Un_assoc)
  next
    case False
    have "covered (merge_scan nxt rest) = covered (nxt # rest)"
      using Cons.prems by (intro Cons.IH) auto
    with False show ?thesis by (simp add: covered_Cons)
  qed
qed

lemma merge_kernel_intervals_props:
  assumes "\<forall>k\<in>set kernel_df. 0 \<le> dur k"
  shows "premerged (merge_kernel_intervals kernel_df)"
    and "covered (merge_kernel_intervals kernel_df) = covered (map interval kernel_df)"
    and "merge_kernel_intervals kernel_df = [] \<longleftrightarrow> kernel_df = []"
proof -
  define xs where "xs = sort_key fst (map interval kernel_df)"
  have sorted: "sorted (map fst xs)" and set: "set xs = set (map interval kernel_df)"
    by (simp_all add: xs_def)
  have le: "\<forall>iv\<in>set xs. fst iv \<le> snd iv"
    using assms by (auto simp: set interval_def)
  have len: "length xs = length kernel_df" by (simp add: xs_def)
  show "premerged (merge_kernel_intervals kernel_df)"
  proof (cases xs)
    case Nil
    then show ?thesis by (simp add: merge_kernel_intervals_def xs_def[symmetric])
  next
    case (Cons iv rest)
    with sorted le have "premerged (merge_scan iv rest)"
      by (intro premerged_merge_scan) auto
    with Cons show ?thesis by (simp add: merge_kernel_intervals_def xs_def[symmetric])
  qed
  show "covered (merge_kernel_intervals kernel_df) = covered (map interval kernel_df)"
  proof (cases xs)
    case Nil
    with set show ?thesis by (simp add: merge_kernel_intervals_def xs_def[symmetric] covered_def)
  next
    case (Cons iv rest)
    with sorted le have "covered (merge_scan iv rest) = covered (iv # rest)"
      by (intro covered_merge_scan) auto
    with Cons covered_set[OF set] show ?thesis
      by (simp add: merge_kernel_intervals_def xs_def[symmetric])
  qed
  show "merge_kernel_intervals kernel_df = [] \<longleftrightarrow> kernel_df = []"
  proof (cases xs)
    case Nil
    with len show ?thesis by (simp add: merge_kernel_intervals_def xs_def[symmetric])
  next
    case (Cons iv rest)
    with len merge_scan_hd[of iv rest] show ?thesis
      by (auto simp: merge_kernel_intervals_def xs_def[symmetric])
  qed
qed

lemma merged_time_filter_le:
  assumes "\<forall>k\<in>set kernel_df. 0 \<le> dur k"
  shows "0 \<le> merged_time (merge_kernel_intervals (filter P kernel_df))"
    and "merged_time (merge_kernel_intervals (filter P kernel_df)) \<le>
         merged_time (merge_kernel_intervals kernel_df)"
proof -
  have f: "\<forall>k\<in>set (filter P kernel_df). 0 \<le> dur k" using assms by simp
  have c1: "merged_time (merge_kernel_intervals (filter P kernel_df)) =
      int (card (covered (map interval (filter P kernel_df))))"
    using merge_kernel_intervals_props(1,2)[OF f] by (simp add: merged_time_card)
  have c2: "merged_time (merge_kernel_intervals kernel_df) = int (card (covered (map interval kernel_df)))"
    using merge_kernel_intervals_props(1,2)[OF assms] by (simp add: merged_time_card)
  have "covered (map interval (filter P kernel_df)) \<subseteq> covered (map interval kernel_df)"
    by (rule covered_mono) auto
  then have "card (covered (map interval (filter P kernel_df))) \<le> card (covered (map interval kernel_df))"
    by (intro card_mono finite_covered)
  with c1 c2 show "merged_time (merge_kernel_intervals (filter P kernel_df)) \<le>
         merged_time (merge_kernel_intervals kernel_df)" by simp
  from c1 show "0 \<le> merged_time (merge_kernel_intervals (filter P kernel_df))" by simp
qed


lemma rint_bounds:
  assumes "0 \<le> x" and "x \<le> real_of_int N"
  shows "0 \<le> rint x \<and> rint x \<le> N"
proof -
  define f where "f = \<lfloor>x\<rfloor>"
  have f0: "0 \<le> f" using assms(1) by (simp add: f_def)
  have fN: "f \<le> N" using assms(2) by (simp add: f_def floor_le_iff)
  have cases: "rint x = f \<or> (rint x = f + 1 \<and> real_of_int f < x)"
    unfolding rint_def Let_def f_def[symmetric] by auto
  have "f + 1 \<le> N" if "real_of_int f < x"
  proof -
    from that assms(2) have "real_of_int f < real_of_int N" by linarith
    then show ?thesis by simp
  qed
  with cases f0 fN show ?thesis by auto
qed

lemma pctg_in_range:
  assumes "0 \<le> m" and "m \<le> k" and "0 < k"
  shows "\<exists>p. pctg_of_ratio (fdiv (Fin (real_of_int m)) (Fin (real_of_int k))) = Fin p \<and> 0 \<le> p \<and> p \<le> 100"
proof -
  define x where "x = 100 * (real_of_int m / real_of_int k) * 100"
  have "0 \<le> real_of_int m / real_of_int k" "real_of_int m / real_of_int k \<le> 1"
    using assms by simp_all
  then have "0 \<le> x" "x \<le> real_of_int 10000"
    by (simp_all add: x_def)
  then have r: "0 \<le> rint x \<and> rint x \<le> 10000" by (rule rint_bounds)
  have "pctg_of_ratio (fdiv (Fin (real_of_int m)) (Fin (real_of_int k))) = Fin (real_of_int (rint x) / 100)"
    using assms(3) by (simp add: pctg_of_ratio_def scale100_def round2_def x_def)
  moreover have "0 \<le> real_of_int (rint x) / 100" "real_of_int (rint x) / 100 \<le> 100"
    using r by simp_all
  ultimately show ?thesis by blast
qed

lemma pctg_zero_window: "pctg_of_ratio (fdiv (Fin (real_of_int 0)) (Fin (real_of_int 0))) = NaN"
  by (simp add: pctg_of_ratio_def scale100_def round2_def)

text \<open>
  C6 (as amended). For every rank whose GPU-kernel event set is non-empty and whose kernel
  durations are all non-negative, \<open>idle_time_per_rank\<close> returns, no assert fires, and
  idle, compute, comm and mem time lie between 0 and the kernel window while
  \<open>non_compute_time\<close> is not negative. When the kernel window is positive, each derived
  percentage is a number in \<open>[0, 100]\<close>; when it is zero (every kernel has zero duration at
  one instant) each is NaN.
\<close>

theorem temporal_invariants:
  assumes "filter (\<lambda>e. stream e \<noteq> - 1) trace_df \<noteq> []"
    and "\<forall>e\<in>set trace_df. stream e \<noteq> - 1 \<longrightarrow> 0 \<le> dur e"
  shows "\<exists>r. idle_time_per_rank kernel_type_of trace_df = Inr r
     \<and> 0 \<le> t_idle_time r \<and> t_idle_time r \<le> t_kernel_time r
     \<and> 0 \<le> t_compute_time r \<and> t_compute_time r \<le> t_kernel_time r
     \<and> 0 \<le> t_comm_time r \<and> t_comm_time r \<le> t_kernel_time r
     \<and> 0 \<le> t_mem_time r \<and> t_mem_time r \<le> t_kernel_time r
     \<and> 0 \<le> t_non_compute_time r
     \<and> (\<forall>m\<in>{t_idle_time r, t_compute_time r, t_comm_time r, t_mem_time r}.
          if 0 < t_kernel_time r
          then \<exists>p. pctg_of_ratio (fdiv (Fin (real_of_int m)) (Fin (real_of_int (t_kernel_time r)))) = Fin p
                 \<and> 0 \<le> p \<and> p \<le> 100
          else pctg_of_ratio (fdiv (Fin (real_of_int m)) (Fin (real_of_int (t_kernel_time r)))) = NaN)"
proof -
  define gpu where "gpu = filter (\<lambda>e. stream e \<noteq> - 1) trace_df"
  define merged where "merged = merge_kernel_intervals gpu"
  define kt where "kt = snd (last merged) - fst (hd merged)"
  define run where "run = merged_time merged"
  define comp where "comp = merged_time (merge_kernel_intervals (filter (\<lambda>k. kernel_type_of k = ''COMPUTATION'') gpu))"
  define comm where "comm = merged_time (merge_kernel_intervals (filter (\<lambda>k. kernel_type_of k = ''COMMUNICATION'') gpu))"
  define mem where "mem = merged_time (merge_kernel_intervals (filter (\<lambda>k. kernel_type_of k = ''MEMORY'') gpu))"
  have durs: "\<forall>k\<in>set gpu. 0 \<le> dur k" using assms(2) by (simp add: gpu_def)
  have ne: "merged \<noteq> []"
    using merge_kernel_intervals_props(3)[OF durs] assms(1) by (simp add: merged_def gpu_def)
  have pm: "premerged merged"
    unfolding merged_def using durs by (rule merge_kernel_intervals_props(1))
  have run_kt: "run \<le> kt"
    unfolding run_def kt_def using pm ne by (rule merged_time_window)
  have run0: "0 \<le> run"
    using merged_time_card[OF pm] by (simp add: run_def)
  have comp_b: "0 \<le> comp" "comp \<le> run"
    using merged_time_filter_le[OF durs] by (simp_all add: comp_def run_def merged_def)
  have comm_b: "0 \<le> comm" "comm \<le> run"
    using merged_time_filter_le[OF durs] by (simp_all add: comm_def run_def merged_def)
  have mem_b: "0 \<le> mem" "mem \<le> run"
    using merged_time_filter_le[OF durs] by (simp_all add: mem_def run_def merged_def)
  define r where "r = \<lparr>t_idle_time = kt - run, t_compute_time = comp, t_comm_time = comm,
      t_mem_time = mem, t_non_compute_time = kt - comp - (kt - run), t_kernel_time = kt\<rparr>"
  have idle: "get_idle_time_for_kernels gpu = Inr (kt - run, kt)"
    using ne by (simp add: get_idle_time_for_kernels_def Let_def merged_def[symmetric] kt_def run_def)
  have run_eq: "idle_time_per_rank kernel_type_of trace_df = Inr r"
    using run_kt run0 comp_b comm_b mem_b
    by (simp add: idle_time_per_rank_def Let_def gpu_def[symmetric] idle comp_def[symmetric]
        comm_def[symmetric] mem_def[symmetric] r_def)
  have bounds: "0 \<le> t_idle_time r" "t_idle_time r \<le> t_kernel_time r"
    "0 \<le> t_compute_time r" "t_compute_time r \<le> t_kernel_time r"
    "0 \<le> t_comm_time r" "t_comm_time r \<le> t_kernel_time r"
    "0 \<le> t_mem_time r" "t_mem_time r \<le> t_kernel_time r"
    "0 \<le> t_non_compute_time r"
    using run_kt run0 comp_b comm_b mem_b by (simp_all add: r_def)
  have pct: "if 0 < t_kernel_time r
      then \<exists>p. pctg_of_ratio (fdiv (Fin (real_of_int m)) (Fin (real_of_int (t_kernel_time r)))) = Fin p
             \<and> 0 \<le> p \<and> p \<le> 100
      else pctg_of_ratio (fdiv (Fin (real_of_int m)) (Fin (real_of_int (t_kernel_time r)))) = NaN"
    if "0 \<le> m" "m \<le> t_kernel_time r" for m
  proof (cases "0 < t_kernel_time r")
    case True
    then show ?thesis using pctg_in_range[OF that True] by simp
  next
    case False
    with that have "t_kernel_time r = 0" "m = 0" by simp_all
    then show ?thesis using pctg_zero_window by simp
  qed
  from pct bounds have "\<forall>m\<in>{t_idle_time r, t_compute_time r, t_comm_time r, t_mem_time r}.
          if 0 < t_kernel_time r
          then \<exists>p. pctg_of_ratio (fdiv (Fin (real_of_int m)) (Fin (real_of_int (t_kernel_time r)))) = Fin p
                 \<and> 0 \<le> p \<and> p \<le> 100
          else pctg_of_ratio (fdiv (Fin (real_of_int m)) (Fin (real_of_int (t_kernel_time r)))) = NaN"
    by blast
  with run_eq bounds show ?thesis by blast
qed


theorem temporal_invariants_witness:
  "filter (\<lambda>e. stream e \<noteq> - 1)
      [kernel_row 1 0 10, kernel_row 2 5 10, kernel_row 3 30 5, kernel_row 1 50 10] \<noteq> []
   \<and> idle_time_per_rank example_kernel_type
      [kernel_row 1 0 10, kernel_row 2 5 10, kernel_row 3 30 5, kernel_row 1 50 10] =
     Inr \<lparr>t_idle_time = 30, t_compute_time = 20, t_comm_time = 10, t_mem_time = 5,
          t_non_compute_time = 10, t_kernel_time = 60\<rparr>
   \<and> pctg_of_ratio (fdiv (Fin 30) (Fin 60)) = Fin 50
   \<and> pctg_of_ratio (fdiv (Fin 20) (Fin 60)) = Fin (3333 / 100)"
proof -
  let ?df = "[kernel_row 1 0 10, kernel_row 2 5 10, kernel_row 3 30 5, kernel_row 1 50 10]"
  have h1: "filter (\<lambda>e. stream e \<noteq> - 1) ?df \<noteq> []"
    by (simp add: kernel_row_def)
  have h2: "\<forall>e\<in>set ?df. stream e \<noteq> - 1 \<longrightarrow> 0 \<le> dur e"
    by (simp add: kernel_row_def)
  have run: "idle_time_per_rank example_kernel_type ?df =
     Inr \<lparr>t_idle_time = 30, t_compute_time = 20, t_comm_time = 10, t_mem_time = 5,
          t_non_compute_time = 10, t_kernel_time = 60\<rparr>"
    by code_simp
  have p: "pctg_of_ratio (fdiv (Fin 30) (Fin 60)) = Fin 50"
    "pctg_of_ratio (fdiv (Fin 20) (Fin 60)) = Fin (3333 / 100)"
    by (simp_all add: pctg_of_ratio_def scale100_def round2_def rint_def)
  from temporal_invariants[OF h1 h2, of example_kernel_type] run h1 p show ?thesis by simp
qed

text \<open>
  C6 (as stated) fails for a rank whose only GPU kernel has duration 0: the kernel window
  is 0, the ratio \<open>0 / 0\<close> is NaN and so is the percentage.
\<close>

theorem temporal_zero_window_counterexample:
  "filter (\<lambda>e. stream e \<noteq> - 1) [kernel_row 1 5 0] = [kernel_row 1 5 0]
   \<and> 0 \<le> dur (kernel_row 1 5 0)
   \<and> idle_time_per_rank example_kernel_type [kernel_row 1 5 0] =
     Inr \<lparr>t_idle_time = 0, t_compute_time = 0, t_comm_time = 0, t_mem_time = 0,
          t_non_compute_time = 0, t_kernel_time = 0\<rparr>
   \<and> add_ratio_pctg ''idle_time''
       (result_frame [(0, \<lparr>t_idle_time = 0, t_compute_time = 0, t_comm_time = 0, t_mem_time = 0,
          t_non_compute_time = 0, t_kernel_time = 0\<rparr>)]) =
     Inr [(''rank'', [Fin 0]), (''idle_time(us)'', [Fin 0]), (''compute_time(us)'', [Fin 0]),
          (''non_compute_time(us)'', [Fin 0]), (''kernel_time(us)'', [Fin 0]),
          (''comm_time(us)'', [Fin 0]), (''mem_time(us)'', [Fin 0]),
          (''idle_time'', [NaN]), (''idle_time_pctg'', [NaN])]"
  by code_simp

lemma keys_set_col: "fst ` set (set_col df c col) = insert c (fst ` set df)"
proof -
  have "set (map fst (set_col df c col)) = insert c (set (map fst df))"
    by (auto simp: set_col_def update_keys)
  then show ?thesis by (simp only: set_map)
qed

lemma keys_add_ratio_pctg:
  assumes "add_ratio_pctg m df = Inr df'"
  shows "fst ` set df' = insert (m @ ''_pctg'') (insert m (fst ` set df))"
proof -
  from assms obtain a b ratio where
    "df' = set_col (set_col df m (map2 fdiv a b)) (m @ ''_pctg'') (map pctg_of_ratio ratio)"
    by (auto simp: add_ratio_pctg_def Let_def split: sum.splits)
  then show ?thesis by (simp only: keys_set_col)
qed

lemma select_cols_keys:
  "select_cols df cs = Inr sel \<Longrightarrow> set cs \<subseteq> fst ` set df"
proof (induction cs arbitrary: sel)
  case Nil
  then show ?case by simp
next
  case (Cons c cs)
  from Cons.prems obtain col sel' where "get_col df c = Inr col" "select_cols df cs = Inr sel'"
    by (auto split: sum.splits)
  moreover from this(1) have "c \<in> fst ` set df"
    by (auto simp: get_col_def split: option.splits dest: map_of_SomeD intro: rev_image_eqI)
  ultimately show ?case using Cons.IH by auto
qed

lemma keys_result_frame:
  "fst ` set (result_frame rs) \<subseteq> {''rank'', ''idle_time(us)'', ''compute_time(us)'',
     ''non_compute_time(us)'', ''kernel_time(us)'', ''comm_time(us)'', ''mem_time(us)''}"
  by (simp add: result_frame_def)

text \<open>
  C2. \<open>get_temporal_breakdown\<close> never returns a table: the final selection asks for the
  column \<open>non_compute_time_pctg\<close>, which no statement assigns, so every call that gets that
  far raises KeyError (and the others raise earlier). For a trace of one rank with a single
  GPU kernel the error is the KeyError of that column.
\<close>

theorem temporal_breakdown_raises:
  "(\<exists>e. get_temporal_breakdown kernel_type_of traces = Inl e)
   \<and> get_temporal_breakdown example_kernel_type [(0, [kernel_row 1 0 10])] =
       Inl (KeyError ''non_compute_time_pctg'')"
proof
  show "\<exists>e. get_temporal_breakdown kernel_type_of traces = Inl e"
  proof (rule ccontr)
    assume "\<not> (\<exists>e. get_temporal_breakdown kernel_type_of traces = Inl e)"
    then obtain out where out: "get_temporal_breakdown kernel_type_of traces = Inr out"
      by (cases "get_temporal_breakdown kernel_type_of traces") auto
    then obtain rs df1 df2 df3 df4 where
      steps: "add_ratio_pctg ''idle_time'' (result_frame rs) = Inr df1"
        "add_ratio_pctg ''compute_time'' df1 = Inr df2"
        "add_ratio_pctg ''comm_time'' df2 = Inr df3"
        "add_ratio_pctg ''mem_time'' df3 = Inr df4"
      and sel: "select_cols df4
         [''rank'', ''idle_time(us)'', ''compute_time(us)'', ''comm_time(us)'', ''mem_time(us)'',
          ''non_compute_time(us)'', ''kernel_time(us)'', ''idle_time_pctg'', ''compute_time_pctg'',
          ''comm_time_pctg'', ''mem_time_pctg'', ''non_compute_time_pctg''] = Inr out"
      by (auto simp: get_temporal_breakdown_def bind_error_def split: sum.splits)
    from select_cols_keys[OF sel] have "''non_compute_time_pctg'' \<in> fst ` set df4" by simp
    then have "''non_compute_time_pctg'' \<in> fst ` set (result_frame rs)"
      by (simp add: keys_add_ratio_pctg[OF steps(4)] keys_add_ratio_pctg[OF steps(3)]
          keys_add_ratio_pctg[OF steps(2)] keys_add_ratio_pctg[OF steps(1)])
    with keys_result_frame[of rs] show False by auto
  qed
  show "get_temporal_breakdown example_kernel_type [(0, [kernel_row 1 0 10])] =
       Inl (KeyError ''non_compute_time_pctg'')"
    by code_simp
qed


end
